theory Spec2Isabelle
  imports Main
begin

section \<open>Values and functions\<close>

text \<open>
  JavaScript values as far as the resolvers look at them.  \<open>VValuesOf r\<close> is a reference
  to the \<open>values\<close> object of the legacy resolution \<open>r\<close> (what its promise is resolved
  with), \<open>VResultsOf a\<close> a reference to the results object of the \<open>$q.all\<close> call
  \<open>a\<close>.  A plain object is the map of its own properties.
\<close>

datatype val =
  VUndefined | VNull | VNum int | VStr string | VError string | VValuesOf nat | VResultsOf nat

type_synonym obj = "string \<rightharpoonup> val"

text \<open>\<open>angular.isDefined\<close>: \<open>typeof value !== 'undefined'\<close>.\<close>

definition isDefined :: "val \<Rightarrow> bool" where
  "isDefined v = (v \<noteq> VUndefined)"

text \<open>
  An argument handed to the function that \<open>study\<close> returns: \<open>undefined\<close>, \<open>null\<close>, any
  other value that is not an object (with its truthiness), a plain object, or the result
  of an earlier call of the function (a promise carrying \<open>$$promises\<close>), named by its
  index in the store.
\<close>

datatype arg = AUndefined | ANull | AOther bool | AObj obj | AResolve nat

text \<open>
  What a JavaScript function does when called: it throws, returns a value, or returns a
  promise of the store.  A function receives its \<open>this\<close> and its arguments.
\<close>

datatype outcome = Throw val | Return val | ReturnPromise nat

type_synonym jsfun = "arg \<Rightarrow> val list \<Rightarrow> outcome"


section \<open>The legacy resolver: plan compilation (\<open>$Resolve.study\<close>, resolve.ts 362-396)\<close>

text \<open>
  An invocable is either a string (the name of a service fetched with
  \<open>$injector.get\<close>) or an injectable function.  The parameter names that
  \<open>$injector.annotate\<close> reports for a function are carried with it; \<open>'f\<close> is the
  function itself.  The mapping of invocables is a JavaScript object: an association list
  of its own properties in the object's enumeration order (the order in which
  \<open>forEach\<close> hands them to \<open>visit\<close>); \<open>invocables[name]\<close> is \<open>map_of\<close>, with
  \<open>None\<close> for \<open>undefined\<close> (the members the object inherits from
  \<open>Object.prototype\<close> are not part of the model).
\<close>

datatype 'f invocable = Str string | Fun "string list" 'f

type_synonym 'f invocables = "(string \<times> 'f invocable) list"

text \<open>
  The plan is the flat array \<open>[key, value, params, key, value, params, ...]\<close>; one triple
  per entry here.  For a string invocable the value pushed is the array-annotated function
  \<open>[function() { return $injector.get(value); }]\<close>.
\<close>

datatype 'f plan_value = InjectorGet string | Invoke 'f

type_synonym 'f plan_entry = "string \<times> 'f plan_value \<times> string list"

datatype visit_mark = VISIT_IN_PROGRESS | VISIT_DONE

text \<open>
  What is thrown: an \<open>Error\<close> made by resolve.ts, the \<open>TypeError\<close> of the language
  for a call of something that is not a function, or whatever a function of the caller
  throws.
\<close>

datatype error = Error string | TypeError string | Thrown val

record 'f study_state =
  plan :: "'f plan_entry list"
  cycle :: "string list"
  visited :: "string \<rightharpoonup> visit_mark"

text \<open>\<open>Array.prototype.indexOf\<close>: the first index of the element, or -1.\<close>

fun indexOf :: "'a list \<Rightarrow> 'a \<Rightarrow> int" where
  "indexOf [] k = -1"
| "indexOf (x # xs) k =
     (if x = k then 0 else (let i = indexOf xs k in if i < 0 then -1 else i + 1))"

text \<open>\<open>cycle.splice(0, n)\<close>: removes the first \<open>n\<close> elements (none when \<open>n \<le> 0\<close>).\<close>

definition splice0 :: "int \<Rightarrow> 'a list \<Rightarrow> 'a list" where
  "splice0 n xs = drop (nat n) xs"

text \<open>\<open>Array.prototype.join\<close>.\<close>

fun join :: "string \<Rightarrow> string list \<Rightarrow> string" where
  "join sep [] = []"
| "join sep [x] = x"
| "join sep (x # y # ys) = x @ sep @ join sep (y # ys)"

definition cyclic_dependency :: "string list \<Rightarrow> error" where
  "cyclic_dependency c = Error (''Cyclic dependency: '' @ join '' -> '' c)"

text \<open>
  \<open>visited\<close> is a plain object (\<open>{}\<close>) used as a dictionary.  Under every name but
  one a mark that was written is what is read back, and a name never written reads as no
  mark (\<open>undefined\<close>, or a function inherited from \<open>Object.prototype\<close>).  The name
  \<open>__proto__\<close> is the accessor of the prototype: \<open>visited['__proto__']\<close> reads the
  prototype object, which is neither mark, and \<open>visited['__proto__'] = 1\<close> (a number
  assigned to the prototype) is ignored.
\<close>

definition read_mark :: "(string \<rightharpoonup> visit_mark) \<Rightarrow> string \<Rightarrow> visit_mark option" where
  "read_mark marks key = (if key = ''__proto__'' then None else marks key)"

definition write_mark ::
  "(string \<rightharpoonup> visit_mark) \<Rightarrow> string \<Rightarrow> visit_mark \<Rightarrow> (string \<rightharpoonup> visit_mark)" where
  "write_mark marks key m = (if key = ''__proto__'' then marks else marks(key \<mapsto> m))"

text \<open>
  \<open>invocables.hasOwnProperty(param)\<close> at line 386.  The method is looked up on the
  mapping first: when the mapping has a property of its own named \<open>hasOwnProperty\<close>,
  that invocable is what gets called.  A string is not callable (a \<open>TypeError\<close>); a
  function is called with the parameter name as its argument, and \<open>call\<close> says what such
  a call of a function of type \<open>'f\<close> does: it throws, or returns a truthy or a falsy
  value.  Without such a property the method is \<open>Object.prototype.hasOwnProperty\<close>.
\<close>

definition hasOwnProperty ::
  "('f \<Rightarrow> string \<Rightarrow> error + bool) \<Rightarrow> 'f invocables \<Rightarrow> string \<Rightarrow> error + bool" where
  "hasOwnProperty call invocables param =
     (case map_of invocables ''hasOwnProperty'' of
        None \<Rightarrow> Inr (map_of invocables param \<noteq> None)
      | Some (Str s) \<Rightarrow> Inl (TypeError ''invocables.hasOwnProperty is not a function'')
      | Some (Fun ps f) \<Rightarrow> call f param)"

text \<open>
  Modelled from the spec: the injector is not part of resolve.ts.  \<open>$injector.annotate\<close>
  gives the parameter names of a function (carried by \<open>Fun\<close> here) and throws for
  \<open>undefined\<close>, which is no function (section 6 of the spec: annotate a function).
\<close>

definition annotate_undefined :: error where
  "annotate_undefined = Error ''Argument fn is not a function, got undefined''"

text \<open>
  \<open>visit(value, key)\<close> and the \<open>forEach(params, ...)\<close> loop inside it.  The closure
  variables \<open>plan\<close>, \<open>cycle\<close> and \<open>visited\<close> are the state; a thrown error is
  \<open>Inl\<close>.  The value is \<open>None\<close> when \<open>invocables[param]\<close> is \<open>undefined\<close>, which
  only a \<open>hasOwnProperty\<close> of the mapping's own can let through.  The recursion depth
  is bounded by a fuel argument: \<open>None\<close> as the result means the fuel ran out before
  the call returned or threw.
\<close>

fun visit :: "nat \<Rightarrow> ('f \<Rightarrow> string \<Rightarrow> error + bool) \<Rightarrow> 'f invocables \<Rightarrow> 'f invocable option
                \<Rightarrow> string \<Rightarrow> 'f study_state \<Rightarrow> (error + 'f study_state) option"
and visit_params :: "nat \<Rightarrow> ('f \<Rightarrow> string \<Rightarrow> error + bool) \<Rightarrow> 'f invocables \<Rightarrow> string
                \<Rightarrow> string list \<Rightarrow> 'f study_state \<Rightarrow> (error + 'f study_state) option" where
  "visit 0 call invocables val key st = None"
| "visit (Suc n) call invocables val key st =
     (if read_mark (visited st) key = Some VISIT_DONE then Some (Inr st)
      else let st1 = st\<lparr>cycle := cycle st @ [key]\<rparr> in
        if read_mark (visited st1) key = Some VISIT_IN_PROGRESS
        then Some (Inl (cyclic_dependency (splice0 (indexOf (cycle st1) key) (cycle st1))))
        else let st2 = st1\<lparr>visited := write_mark (visited st1) key VISIT_IN_PROGRESS\<rparr> in
          (case val of
             None \<Rightarrow> Some (Inl annotate_undefined)
           | Some (Str s) \<Rightarrow>
               (let st3 = st2\<lparr>plan := plan st2 @ [(key, InjectorGet s, [])]\<rparr> in
                Some (Inr (st3\<lparr>cycle := butlast (cycle st3),
                                visited := write_mark (visited st3) key VISIT_DONE\<rparr>)))
           | Some (Fun params f) \<Rightarrow>
               (case visit_params n call invocables key params st2 of
                  None \<Rightarrow> None
                | Some (Inl e) \<Rightarrow> Some (Inl e)
                | Some (Inr st3) \<Rightarrow>
                    (let st4 = st3\<lparr>plan := plan st3 @ [(key, Invoke f, params)]\<rparr> in
                     Some (Inr (st4\<lparr>cycle := butlast (cycle st4),
                                     visited := write_mark (visited st4) key VISIT_DONE\<rparr>))))))"
| "visit_params n call invocables key [] st = Some (Inr st)"
| "visit_params n call invocables key (param # params) st =
     (if param \<noteq> key
      then (case hasOwnProperty call invocables param of
              Inl e \<Rightarrow> Some (Inl e)
            | Inr own \<Rightarrow>
                if own
                then (case visit n call invocables (map_of invocables param) param st of
                        None \<Rightarrow> None
                      | Some (Inl e) \<Rightarrow> Some (Inl e)
                      | Some (Inr st') \<Rightarrow> visit_params n call invocables key params st')
                else visit_params n call invocables key params st)
      else visit_params n call invocables key params st)"

text \<open>\<open>forEach(invocables, visit)\<close>: the properties in enumeration order.\<close>

fun visit_all :: "nat \<Rightarrow> ('f \<Rightarrow> string \<Rightarrow> error + bool) \<Rightarrow> 'f invocables \<Rightarrow> 'f invocables
                    \<Rightarrow> 'f study_state \<Rightarrow> (error + 'f study_state) option" where
  "visit_all n call invocables [] st = Some (Inr st)"
| "visit_all n call invocables ((key, val) # rest) st =
     (case visit n call invocables (Some val) key st of
        None \<Rightarrow> None
      | Some (Inl e) \<Rightarrow> Some (Inl e)
      | Some (Inr st') \<Rightarrow> visit_all n call invocables rest st')"

definition study_init :: "'f study_state" where
  "study_init = \<lparr>plan = [], cycle = [], visited = Map.empty\<rparr>"

text \<open>
  The synchronous part of \<open>study\<close>: the plan, or the thrown error.  The names in progress
  are distinct on the stack of nested \<open>visit\<close> calls and only \<open>__proto__\<close>, which is
  never marked, can stand between two of them, so the fuel of two units per property
  plus one is not used up.  The check \<open>isObject(invocables)\<close> at the head of \<open>study\<close>
  is met by the type of the argument.
\<close>

definition study ::
  "('f \<Rightarrow> string \<Rightarrow> error + bool) \<Rightarrow> 'f invocables \<Rightarrow> (error + 'f plan_entry list) option" where
  "study call invocables =
     (case visit_all (Suc (2 * length invocables)) call invocables invocables study_init of
        None \<Rightarrow> None
      | Some (Inl e) \<Rightarrow> Some (Inl e)
      | Some (Inr st) \<Rightarrow> Some (Inr (plan st)))"

subsection \<open>The dependency graph of a mapping and the invariant of the traversal\<close>




















section \<open>The injector and the asynchronous results\<close>

text \<open>
  Modelled from the spec: the injector is not part of resolve.ts.  \<open>$injector.invoke(fn,
  self, locals)\<close> calls the function with one argument per declared parameter, taken
  from \<open>locals\<close> when \<open>locals\<close> has the name as its own property and from the injector's
  services otherwise; a name that is neither makes \<open>invoke\<close> throw before the function
  is called (section 6 of the spec: invoke the function with matching arguments,
  propagating thrown errors synchronously).
\<close>

fun injector_args :: "obj \<Rightarrow> obj \<Rightarrow> string list \<Rightarrow> val + val list" where
  "injector_args services locals [] = Inr []"
| "injector_args services locals (p # ps) =
     (case (if locals p \<noteq> None then locals p else services p) of
        None \<Rightarrow> Inl (VError (''Unknown provider: '' @ p))
      | Some v \<Rightarrow> (case injector_args services locals ps of
                     Inl e \<Rightarrow> Inl e
                   | Inr vs \<Rightarrow> Inr (v # vs)))"

text \<open>
  Modelled from the spec: \<open>$q\<close> is not part of resolve.ts.  A promise is pending, locked
  onto another promise it was resolved with, fulfilled or rejected; it settles once, and
  later calls of \<open>resolve\<close> or \<open>reject\<close> are ignored.  A continuation chained with \<open>then\<close>
  never runs inside the call that chains or settles: it is put on a first-in first-out
  queue when its promise settles (at once when the promise is settled already) and runs
  when the queue is drained.  The continuations of resolve.ts are the constructors of a
  datatype, one per \<open>then\<close> in the source.
\<close>

datatype pstate = Pending | Following nat | Fulfilled val | Rejected val

record 'cb promise_store =
  pstates :: "nat \<Rightarrow> pstate"
  pnext :: nat
  handlers :: "(nat \<times> 'cb) list"
  queue :: "('cb \<times> (val + val)) list"

definition q_empty :: "'cb promise_store" where
  "q_empty = \<lparr>pstates = (\<lambda>_. Pending), pnext = 0, handlers = [], queue = []\<rparr>"

text \<open>\<open>$q.defer()\<close>: a fresh pending promise.\<close>

definition q_defer :: "'cb promise_store \<Rightarrow> nat \<times> 'cb promise_store" where
  "q_defer q = (pnext q, q\<lparr>pstates := (pstates q)(pnext q := Pending), pnext := Suc (pnext q)\<rparr>)"

text \<open>\<open>promise.then(onFulfilled, onRejected)\<close>, the pair being the continuation \<open>cb\<close>.\<close>

definition q_then :: "nat \<Rightarrow> 'cb \<Rightarrow> 'cb promise_store \<Rightarrow> 'cb promise_store" where
  "q_then p cb q =
     (case pstates q p of
        Fulfilled v \<Rightarrow> q\<lparr>queue := queue q @ [(cb, Inr v)]\<rparr>
      | Rejected e \<Rightarrow> q\<lparr>queue := queue q @ [(cb, Inl e)]\<rparr>
      | _ \<Rightarrow> q\<lparr>handlers := handlers q @ [(p, cb)]\<rparr>)"

text \<open>Settling: the continuations chained so far are queued in the order they were chained.\<close>

definition q_settle :: "nat \<Rightarrow> val + val \<Rightarrow> 'cb promise_store \<Rightarrow> 'cb promise_store" where
  "q_settle p oc q =
     q\<lparr>pstates := (pstates q)(p := (case oc of Inl e \<Rightarrow> Rejected e | Inr v \<Rightarrow> Fulfilled v)),
       handlers := filter (\<lambda>h. fst h \<noteq> p) (handlers q),
       queue := queue q @ map (\<lambda>h. (snd h, oc)) (filter (\<lambda>h. fst h = p) (handlers q))\<rparr>"

text \<open>\<open>deferred.resolve(value)\<close> with a value that is not a promise, and \<open>deferred.reject\<close>.\<close>

definition q_resolve :: "nat \<Rightarrow> val \<Rightarrow> 'cb promise_store \<Rightarrow> 'cb promise_store" where
  "q_resolve p v q = (if pstates q p = Pending then q_settle p (Inr v) q else q)"

definition q_reject :: "nat \<Rightarrow> val \<Rightarrow> 'cb promise_store \<Rightarrow> 'cb promise_store" where
  "q_reject p e q = (if pstates q p = Pending then q_settle p (Inl e) q else q)"

text \<open>
  \<open>deferred.resolve(promise)\<close>: the deferred is locked and settles as the promise does;
  \<open>adopt\<close> is the continuation that does it.
\<close>

definition q_resolve_promise ::
  "(nat \<Rightarrow> 'cb) \<Rightarrow> nat \<Rightarrow> nat \<Rightarrow> 'cb promise_store \<Rightarrow> 'cb promise_store" where
  "q_resolve_promise adopt p p' q =
     (if pstates q p = Pending
      then q_then p' (adopt p) (q\<lparr>pstates := (pstates q)(p := Following p')\<rparr>)
      else q)"

definition q_adopt :: "nat \<Rightarrow> val + val \<Rightarrow> 'cb promise_store \<Rightarrow> 'cb promise_store" where
  "q_adopt p oc q = (case pstates q p of Following p' \<Rightarrow> q_settle p oc q | _ \<Rightarrow> q)"

text \<open>\<open>deferred.resolve(x)\<close> for what a function returned.\<close>

fun q_resolve_with ::
  "(nat \<Rightarrow> 'cb) \<Rightarrow> nat \<Rightarrow> outcome \<Rightarrow> 'cb promise_store \<Rightarrow> 'cb promise_store" where
  "q_resolve_with adopt p (Return v) q = q_resolve p v q"
| "q_resolve_with adopt p (ReturnPromise p') q = q_resolve_promise adopt p p' q"
| "q_resolve_with adopt p (Throw e) q = q"

section \<open>The legacy resolver: plan execution (the function \<open>study\<close> returns, resolve.ts 398-503)\<close>

text \<open>
  \<open>isObject\<close>, JavaScript truthiness, \<open>=== undefined\<close> and \<open>isResolve\<close> on
  arguments.  A result of the engine is a promise (it has \<open>then\<close>) whose \<open>$$promises\<close>
  is an object, so \<open>isResolve\<close> holds of it; the plain objects of the model carry
  neither property.
\<close>

fun isObject :: "arg \<Rightarrow> bool" where
  "isObject (AObj ob) = True"
| "isObject (AResolve r) = True"
| "isObject a = False"

fun truthy :: "arg \<Rightarrow> bool" where
  "truthy AUndefined = False"
| "truthy ANull = False"
| "truthy (AOther b) = b"
| "truthy a = True"

fun is_undefined :: "arg \<Rightarrow> bool" where
  "is_undefined AUndefined = True"
| "is_undefined a = False"

fun isResolve :: "arg \<Rightarrow> bool" where
  "isResolve (AResolve r) = True"
| "isResolve a = False"

text \<open>
  The own properties that \<open>extend({}, locals)\<close> copies and \<open>locals.hasOwnProperty\<close> sees.
  The bookkeeping properties of a result object are not values of the model: a result
  passed as \<open>locals\<close> together with an explicit \<open>self\<close> contributes no locals here.
\<close>

fun props_of :: "arg \<Rightarrow> obj" where
  "props_of (AObj ob) = ob"
| "props_of a = Map.empty"

text \<open>
  Modelled from the spec: \<open>extend\<close>, \<open>merge\<close> and \<open>omit\<close> come from common.ts, which is
  not part of the sources.  \<open>extend(dst, src)\<close> copies every property of \<open>src\<close> over
  \<open>dst\<close> (section 4.3: the later object overwrites a same-named entry); \<open>merge(dst,
  src)\<close> adds only the properties \<open>dst\<close> does not have yet (section 4.4: inherited values
  not already present are merged in); \<open>omit(obj, keys)\<close> is a copy without \<open>keys\<close>.
\<close>

definition extend_obj :: "('k \<rightharpoonup> 'v) \<Rightarrow> ('k \<rightharpoonup> 'v) \<Rightarrow> ('k \<rightharpoonup> 'v)" where
  "extend_obj dst src = (\<lambda>k. case src k of Some v \<Rightarrow> Some v | None \<Rightarrow> dst k)"

definition merge :: "('k \<rightharpoonup> 'v) \<Rightarrow> ('k \<rightharpoonup> 'v) \<Rightarrow> ('k \<rightharpoonup> 'v)" where
  "merge dst src = (\<lambda>k. case dst k of Some v \<Rightarrow> Some v | None \<Rightarrow> src k)"

definition omit :: "('k \<rightharpoonup> 'v) \<Rightarrow> 'k list \<Rightarrow> ('k \<rightharpoonup> 'v)" where
  "omit ob ks = (\<lambda>k. if k \<in> set ks then None else ob k)"

text \<open>
  The closure of one \<open>__invoke\<close> call: its deferred, its counter \<open>waitParams\<close> and the
  invocable with its parameters.
\<close>

record invoke_closure =
  invocation :: nat
  waitParams :: int
  invocable :: "jsfun plan_value"
  params :: "string list"

text \<open>
  One call of the returned function: its arguments after normalisation, the closure
  variables (\<open>resolution\<close>, \<open>promises\<close>, \<open>values\<close>, \<open>wait\<close>, \<open>merged\<close>, one closure per
  \<open>__invoke\<close>) and the properties of \<open>result\<close>.  \<open>result.$$promises\<close> is the object
  \<open>promises\<close>; \<open>result.$$values\<close>, once published, is the object \<open>values\<close>; an absent
  \<open>$$failure\<close> reads as \<open>undefined\<close>; \<open>parent = None\<close> is \<open>NO_PARENT\<close>.
\<close>

record resolution =
  locals :: obj
  parent :: "nat option"
  self :: arg
  resolution_promise :: nat
  promises :: "string \<rightharpoonup> nat"
  "values" :: obj
  wait :: int
  merged :: bool
  failure :: val
  inheritedValues :: "obj option"
  published :: bool
  closures :: "string \<rightharpoonup> invoke_closure"

text \<open>
  The continuations the function chains: \<open>parent.then(done, fail)\<close>, the pair chained on
  \<open>promises[dep]\<close> in \<open>__invoke\<close>, the pair chained on \<open>invocation.promise\<close> in
  \<open>proceed\<close>, and the one that settles a locked deferred.
\<close>

datatype lcallback =
    Adopt nat
  | ParentThen nat
  | ParamThen nat string string
  | InvocationThen nat string

text \<open>
  The store: the promises, the resolutions made so far, the injector's services and a log
  of the invocables called (by which resolution, under which name, with which arguments).
\<close>

record lstate =
  q :: "lcallback promise_store"
  resolutions :: "nat \<Rightarrow> resolution"
  rnext :: nat
  invoked :: "(nat \<times> string \<times> val list) list"
  services :: obj

definition upd_res :: "nat \<Rightarrow> (resolution \<Rightarrow> resolution) \<Rightarrow> lstate \<Rightarrow> lstate" where
  "upd_res r f st = st\<lparr>resolutions := (resolutions st)(r := f (resolutions st r))\<rparr>"

definition upd_q ::
  "(lcallback promise_store \<Rightarrow> lcallback promise_store) \<Rightarrow> lstate \<Rightarrow> lstate" where
  "upd_q f st = st\<lparr>q := f (q st)\<rparr>"

text \<open>What the function reads from \<open>parent\<close>; \<open>NO_PARENT\<close> has empty \<open>$$promises\<close> and \<open>$$values\<close>.\<close>

definition parent_failure :: "lstate \<Rightarrow> nat option \<Rightarrow> val" where
  "parent_failure st p = (case p of None \<Rightarrow> VUndefined | Some i \<Rightarrow> failure (resolutions st i))"

definition parent_inheritedValues :: "lstate \<Rightarrow> nat option \<Rightarrow> obj option" where
  "parent_inheritedValues st p =
     (case p of None \<Rightarrow> None | Some i \<Rightarrow> inheritedValues (resolutions st i))"

definition parent_promises :: "lstate \<Rightarrow> nat option \<Rightarrow> (string \<rightharpoonup> nat)" where
  "parent_promises st p = (case p of None \<Rightarrow> Map.empty | Some i \<Rightarrow> promises (resolutions st i))"

definition parent_values :: "lstate \<Rightarrow> nat option \<Rightarrow> obj option" where
  "parent_values st p =
     (case p of
        None \<Rightarrow> Some Map.empty
      | Some i \<Rightarrow> if published (resolutions st i) then Some (values (resolutions st i)) else None)"

text \<open>\<open>fail(reason)\<close>: \<open>result.$$failure = reason; resolution.reject(reason)\<close>.\<close>

definition fail :: "nat \<Rightarrow> val \<Rightarrow> lstate \<Rightarrow> lstate" where
  "fail r reason st =
     upd_q (q_reject (resolution_promise (resolutions st r)) reason)
       (upd_res r (\<lambda>x. x\<lparr>failure := reason\<rparr>) st)"

text \<open>
  \<open>done()\<close>: when the counter reaches zero the parent's values not present yet are merged
  in (unless they were merged at the start), \<open>$$values\<close> is published,
  \<open>$$inheritedValues\<close> deleted and the resolution resolved with \<open>values\<close>.
\<close>

definition resolve_done :: "nat \<Rightarrow> lstate \<Rightarrow> lstate" where
  "resolve_done r st =
     (let st1 = upd_res r (\<lambda>x. x\<lparr>wait := wait x - 1\<rparr>) st in
      if wait (resolutions st1 r) = 0
      then
        (let st2 = (if \<not> merged (resolutions st1 r)
                    then (case parent_values st1 (parent (resolutions st1 r)) of
                            None \<Rightarrow> st1
                          | Some pv \<Rightarrow> upd_res r (\<lambda>x. x\<lparr>values := merge (values x) pv\<rparr>) st1)
                    else st1);
             st3 = upd_res r (\<lambda>x. x\<lparr>published := True, inheritedValues := None\<rparr>) st2
         in upd_q (q_resolve (resolution_promise (resolutions st3 r)) (VValuesOf r)) st3)
      else st1)"

text \<open>\<open>onfailure(reason)\<close> of the \<open>__invoke\<close> call for \<open>key\<close>.\<close>

definition onfailure :: "nat \<Rightarrow> string \<Rightarrow> val \<Rightarrow> lstate \<Rightarrow> lstate" where
  "onfailure r key reason st =
     (case closures (resolutions st r) key of
        None \<Rightarrow> st
      | Some c \<Rightarrow> fail r reason (upd_q (q_reject (invocation c) reason) st))"

text \<open>
  \<open>$injector.invoke(invocable, self, values)\<close>: the outcome and, when the function is
  reached, the log entry.  The value pushed for a string invocable is a function without
  parameters that returns \<open>$injector.get(name)\<close>.
\<close>

definition injector_invoke ::
  "nat \<Rightarrow> string \<Rightarrow> jsfun plan_value \<Rightarrow> string list \<Rightarrow> arg \<Rightarrow> obj \<Rightarrow> lstate \<Rightarrow> outcome \<times> lstate" where
  "injector_invoke r key f ps slf vals st =
     (case f of
        InjectorGet name \<Rightarrow>
          (case services st name of
             None \<Rightarrow> (Throw (VError (''Unknown provider: '' @ name)),
                       st\<lparr>invoked := invoked st @ [(r, key, [])]\<rparr>)
           | Some v \<Rightarrow> (Return v, st\<lparr>invoked := invoked st @ [(r, key, [])]\<rparr>))
      | Invoke fn \<Rightarrow>
          (case injector_args (services st) vals ps of
             Inl e \<Rightarrow> (Throw e, st)
           | Inr args \<Rightarrow> (fn slf args, st\<lparr>invoked := invoked st @ [(r, key, args)]\<rparr>)))"

text \<open>
  \<open>proceed()\<close>: nothing when \<open>result.$$failure\<close> is defined; otherwise the invocable is
  called with \<open>values\<close>, the invocation resolved with what it returns and the
  continuation chained; a throw goes to \<open>onfailure\<close>.
\<close>

definition proceed :: "nat \<Rightarrow> string \<Rightarrow> lstate \<Rightarrow> lstate" where
  "proceed r key st =
     (if isDefined (failure (resolutions st r)) then st
      else (case closures (resolutions st r) key of
              None \<Rightarrow> st
            | Some c \<Rightarrow>
                (case injector_invoke r key (invocable c) (params c) (self (resolutions st r))
                        (values (resolutions st r)) st of
                   (Throw e, st1) \<Rightarrow> onfailure r key e st1
                 | (oc, st1) \<Rightarrow>
                     upd_q (q_then (invocation c) (InvocationThen r key))
                       (upd_q (q_resolve_with Adopt (invocation c) oc) st1))))"

text \<open>
  The loop of \<open>__invoke\<close> over the parameters: a parameter that has a promise and is not
  a local is waited for.
\<close>

fun wait_params :: "nat \<Rightarrow> string \<Rightarrow> string list \<Rightarrow> lstate \<Rightarrow> lstate" where
  "wait_params r key [] st = st"
| "wait_params r key (dep # deps) st =
     (if promises (resolutions st r) dep \<noteq> None \<and> locals (resolutions st r) dep = None
      then wait_params r key deps
             (upd_q (q_then (the (promises (resolutions st r) dep)) (ParamThen r key dep))
                (upd_res r (\<lambda>x. x\<lparr>closures := (closures x)(key :=
                    map_option (\<lambda>c. c\<lparr>waitParams := waitParams c + 1\<rparr>) (closures x key))\<rparr>) st))
      else wait_params r key deps st)"

text \<open>
  \<open>__invoke(key, invocable, params)\<close>, statement by statement: the closure with its
  fresh deferred (\<open>invocation = $q.defer(), waitParams = 0\<close>), the loop over the
  parameters, \<open>if (!waitParams) proceed()\<close>, and last
  \<open>promises[key] = invocation.promise\<close>.
\<close>

definition new_invocation ::
  "nat \<Rightarrow> string \<Rightarrow> jsfun plan_value \<Rightarrow> string list \<Rightarrow> lstate \<Rightarrow> lstate" where
  "new_invocation r key f ps st =
     upd_res r (\<lambda>x. x\<lparr>closures := (closures x)(key \<mapsto>
                 \<lparr>invocation = fst (q_defer (q st)), waitParams = 0, invocable = f, params = ps\<rparr>)\<rparr>)
       (upd_q (\<lambda>x. snd (q_defer x)) st)"

definition proceed_if_ready :: "nat \<Rightarrow> string \<Rightarrow> lstate \<Rightarrow> lstate" where
  "proceed_if_ready r key st =
     (if map_option waitParams (closures (resolutions st r) key) = Some 0
      then proceed r key st else st)"

definition publish :: "nat \<Rightarrow> string \<Rightarrow> lstate \<Rightarrow> lstate" where
  "publish r key st =
     (case closures (resolutions st r) key of
        None \<Rightarrow> st
      | Some c \<Rightarrow> upd_res r (\<lambda>x. x\<lparr>promises := (promises x)(key \<mapsto> invocation c)\<rparr>) st)"

definition invoke_entry ::
  "nat \<Rightarrow> string \<Rightarrow> jsfun plan_value \<Rightarrow> string list \<Rightarrow> lstate \<Rightarrow> lstate" where
  "invoke_entry r key f ps st =
     publish r key (proceed_if_ready r key (wait_params r key ps (new_invocation r key f ps st)))"

text \<open>The loop over the plan: an entry whose name is a local only counts as done.\<close>

fun process_plan :: "nat \<Rightarrow> jsfun plan_entry list \<Rightarrow> lstate \<Rightarrow> lstate" where
  "process_plan r [] st = st"
| "process_plan r ((key, f, ps) # rest) st =
     process_plan r rest
       (if locals (resolutions st r) key \<noteq> None then resolve_done r st
        else invoke_entry r key f ps st)"

text \<open>
  The part between the short-circuit and the loop, statement by statement.  First
  \<open>if (parent.$$inheritedValues) merge(values, omit(parent.$$inheritedValues,
  invocableKeys))\<close>.
\<close>

definition inherit_values :: "nat \<Rightarrow> string list \<Rightarrow> lstate \<Rightarrow> lstate" where
  "inherit_values r invocableKeys st =
     (case parent_inheritedValues st (parent (resolutions st r)) of
        None \<Rightarrow> st
      | Some iv \<Rightarrow> upd_res r (\<lambda>x. x\<lparr>values := merge (values x) (omit iv invocableKeys)\<rparr>) st)"

text \<open>\<open>extend(promises, parent.$$promises)\<close>.\<close>

definition inherit_promises :: "nat \<Rightarrow> lstate \<Rightarrow> lstate" where
  "inherit_promises r st =
     upd_res r (\<lambda>x. x\<lparr>promises :=
        extend_obj (promises x) (parent_promises st (parent (resolutions st r)))\<rparr>) st"

text \<open>
  The branch for a parent that is still in progress: its \<open>$$inheritedValues\<close> are
  passed on and \<open>parent.then(done, fail)\<close> is chained.
\<close>

definition wait_for_parent :: "nat \<Rightarrow> string list \<Rightarrow> lstate \<Rightarrow> lstate" where
  "wait_for_parent r invocableKeys st =
     (let st3 = (case parent_inheritedValues st (parent (resolutions st r)) of
                   None \<Rightarrow> st
                 | Some iv \<Rightarrow>
                     upd_res r (\<lambda>x. x\<lparr>inheritedValues := Some (omit iv invocableKeys)\<rparr>) st)
      in (case parent (resolutions st r) of
            None \<Rightarrow> st3
          | Some i \<Rightarrow> upd_q (q_then (resolution_promise (resolutions st3 i)) (ParentThen r)) st3))"

text \<open>
  \<open>if (parent.$$values) {...} else {...}\<close>: the values of a parent that has resolved
  are merged now and count as one \<open>done()\<close>.
\<close>

definition merge_or_wait :: "nat \<Rightarrow> string list \<Rightarrow> lstate \<Rightarrow> lstate" where
  "merge_or_wait r invocableKeys st =
     (case parent_values st (parent (resolutions st r)) of
        Some pv \<Rightarrow>
          resolve_done r
            (upd_res r (\<lambda>x. x\<lparr>values := merge (values x) (omit pv invocableKeys),
                              merged := True,
                              inheritedValues := Some (omit pv invocableKeys)\<rparr>) st)
      | None \<Rightarrow> wait_for_parent r invocableKeys st)"

definition inherit :: "nat \<Rightarrow> string list \<Rightarrow> lstate \<Rightarrow> lstate" where
  "inherit r invocableKeys st =
     merge_or_wait r invocableKeys (inherit_promises r (inherit_values r invocableKeys st))"

text \<open>
  The normalisation of the arguments at the head of the function: the reinterpretation
  of a result in first position, then the two checks that throw.
\<close>

definition shift_args :: "arg \<Rightarrow> arg \<Rightarrow> arg \<Rightarrow> arg \<times> arg \<times> arg" where
  "shift_args a_locals a_parent a_self =
     (if isResolve a_locals \<and> is_undefined a_self then (ANull, a_locals, a_parent)
      else (a_locals, a_parent, a_self))"

definition resolve_args :: "arg \<Rightarrow> arg \<Rightarrow> arg \<Rightarrow> error + (obj \<times> nat option \<times> arg)" where
  "resolve_args a_locals a_parent a_self =
     (case shift_args a_locals a_parent a_self of (l, p, s) \<Rightarrow>
        if truthy l \<and> \<not> isObject l then Inl (Error (CHR 0x27 # ''locals'' @ CHR 0x27 # '' must be an object''))
        else if truthy p \<and> \<not> isResolve p
        then Inl (Error (CHR 0x27 # ''parent'' @ CHR 0x27 #
                     '' must be a promise returned by $resolve.resolve()''))
        else Inr (if truthy l then props_of l else Map.empty,
                  case p of AResolve i \<Rightarrow> Some i | _ \<Rightarrow> None,
                  s))"

text \<open>
  The function \<open>study\<close> returns, for a plan and the names of the invocables it was
  compiled from: the thrown error, or the index of \<open>result\<close> in the store and the store
  after the synchronous part of the call.
\<close>

definition resolve_with_plan ::
  "jsfun plan_entry list \<Rightarrow> string list \<Rightarrow> arg \<Rightarrow> arg \<Rightarrow> arg \<Rightarrow> lstate \<Rightarrow> error + (nat \<times> lstate)" where
  "resolve_with_plan pl invocableKeys a_locals a_parent a_self st =
     (case resolve_args a_locals a_parent a_self of
        Inl e \<Rightarrow> Inl e
      | Inr (l, p, s) \<Rightarrow>
          (let (rp, q1) = q_defer (q st);
               r = rnext st;
               st1 = st\<lparr>q := q1, rnext := Suc r,
                        resolutions := (resolutions st)(r :=
                          \<lparr>locals = l, parent = p, self = s, resolution_promise = rp,
                           promises = Map.empty, values = extend_obj Map.empty l,
                           wait = 1 + int (length pl), merged = False, failure = VUndefined,
                           inheritedValues = None, published = False,
                           closures = Map.empty\<rparr>)\<rparr>
           in if isDefined (parent_failure st1 p)
              then Inr (r, fail r (parent_failure st1 p) st1)
              else Inr (r, process_plan r pl (inherit r invocableKeys st1))))"

text \<open>Running one queued continuation.\<close>

fun run_callback :: "lcallback \<Rightarrow> val + val \<Rightarrow> lstate \<Rightarrow> lstate" where
  "run_callback (Adopt p) oc st = upd_q (q_adopt p oc) st"
| "run_callback (ParentThen r) (Inr v) st = resolve_done r st"
| "run_callback (ParentThen r) (Inl reason) st = fail r reason st"
| "run_callback (ParamThen r key dep) (Inr result) st =
     (let st1 = upd_res r (\<lambda>x. x\<lparr>values := (values x)(dep \<mapsto> result),
                 closures := (closures x)(key :=
                    map_option (\<lambda>c. c\<lparr>waitParams := waitParams c - 1\<rparr>) (closures x key))\<rparr>) st
      in if map_option waitParams (closures (resolutions st1 r) key) = Some 0
         then proceed r key st1 else st1)"
| "run_callback (ParamThen r key dep) (Inl reason) st = onfailure r key reason st"
| "run_callback (InvocationThen r key) (Inr result) st =
     resolve_done r (upd_res r (\<lambda>x. x\<lparr>values := (values x)(key \<mapsto> result)\<rparr>) st)"
| "run_callback (InvocationThen r key) (Inl reason) st = onfailure r key reason st"

text \<open>
  Draining the queue, at most \<open>n\<close> continuations; \<open>None\<close> when continuations are left
  after \<open>n\<close> steps.
\<close>

fun drain :: "nat \<Rightarrow> lstate \<Rightarrow> lstate option" where
  "drain n st =
     (case queue (q st) of
        [] \<Rightarrow> Some st
      | (cb, oc) # rest \<Rightarrow>
          (case n of
             0 \<Rightarrow> None
           | Suc m \<Rightarrow> drain m (run_callback cb oc (upd_q (\<lambda>x. x\<lparr>queue := rest\<rparr>) st))))"

text \<open>
  An event from outside the engine: a pending promise that an invocable returned (or that
  exists in the store from the start) is settled, and the queue is drained.
\<close>

definition settle_external :: "nat \<Rightarrow> nat \<Rightarrow> val + val \<Rightarrow> lstate \<Rightarrow> lstate option" where
  "settle_external n p oc st =
     drain n (if pstates (q st) p = Pending then upd_q (q_settle p oc) st else st)"

definition lstate_init :: "obj \<Rightarrow> lstate" where
  "lstate_init svc =
     \<lparr>q = q_empty,
      resolutions = (\<lambda>_. \<lparr>locals = Map.empty, parent = None, self = AUndefined,
          resolution_promise = 0, promises = Map.empty, values = Map.empty, wait = 0,
          merged = False, failure = VUndefined, inheritedValues = None, published = False,
          closures = Map.empty\<rparr>),
      rnext = 0, invoked = [], services = svc\<rparr>"

text \<open>
  An invocable function called as \<open>invocables.hasOwnProperty(param)\<close> (what \<open>study\<close>
  does with a mapping that has a function of its own under that name): \<open>this\<close> is the
  mapping, of which the model shows the properties that are strings, and the result is
  taken for its truthiness.
\<close>

fun truthy_val :: "val \<Rightarrow> bool" where
  "truthy_val VUndefined = False"
| "truthy_val VNull = False"
| "truthy_val (VNum n) = (n \<noteq> 0)"
| "truthy_val (VStr s) = (s \<noteq> [])"
| "truthy_val v = True"

definition string_props :: "jsfun invocables \<Rightarrow> obj" where
  "string_props invocables =
     (\<lambda>k. case map_of invocables k of Some (Str s) \<Rightarrow> Some (VStr s) | _ \<Rightarrow> None)"

definition call_as_method :: "jsfun invocables \<Rightarrow> jsfun \<Rightarrow> string \<Rightarrow> error + bool" where
  "call_as_method invocables f param =
     (case f (AObj (string_props invocables)) [VStr param] of
        Throw e \<Rightarrow> Inl (Thrown e)
      | Return v \<Rightarrow> Inr (truthy_val v)
      | ReturnPromise p \<Rightarrow> Inr True)"

text \<open>\<open>$resolve.resolve(invocables, locals, parent, self)\<close>: \<open>study\<close>, then the call.\<close>

definition resolve ::
  "jsfun invocables \<Rightarrow> arg \<Rightarrow> arg \<Rightarrow> arg \<Rightarrow> lstate \<Rightarrow> (error + (nat \<times> lstate)) option" where
  "resolve invocables a_locals a_parent a_self st =
     (case study (call_as_method invocables) invocables of
        None \<Rightarrow> None
      | Some (Inl e) \<Rightarrow> Some (Inl e)
      | Some (Inr pl) \<Rightarrow>
          Some (resolve_with_plan pl (map fst invocables) a_locals a_parent a_self st))"

section \<open>Resolvable, PathElement and Path (resolve.ts 23-311)\<close>

text \<open>
  A Resolvable: its name, its function with the dependencies \<open>$injector.annotate\<close>
  reported to the constructor, the state it belongs to (an opaque object), and the two
  mutable slots \<open>promise\<close> (\<open>undefined\<close> at first) and \<open>data\<close>.
\<close>

record resolvable =
  name :: string
  resolveFn :: jsfun
  state :: obj
  deps :: "string list"
  promise :: "nat option"
  data :: val

text \<open>
  A PathElement: its state and the object \<open>_resolvables\<close>, from names to Resolvables
  (indices in the store).  A Path is the array of its elements; elements are objects with
  an identity, so a path is a list of indices.
\<close>

record path_element =
  element_state :: obj
  resolvables_of :: "string \<rightharpoonup> nat"

type_synonym path = "nat list"

text \<open>
  Modelled from the spec: \<open>$q.all(promises)\<close> for an object of promises keeps a counter
  and a results object; its promise is resolved with the results when every input is
  fulfilled (at once when there is none) and rejected with the first rejection
  (section 6: settles when all inputs settle or fails as soon as any input fails).
\<close>

record all_record =
  counter :: int
  results :: obj
  all_deferred :: nat

text \<open>
  The continuations: the one \<open>$q.all\<close> chains on each input, the arrow function
  \<open>locals => {...}\<close> of \<open>resolveResolvable\<close> (with the Resolvable, the \<open>$q.all\<close> call it
  follows and the promise \<open>then\<close> returned), the \<open>function(data) {...}\<close> chained after it
  (with the promise \<open>then\<close> returned), and the one that settles a locked deferred.
\<close>

datatype ncallback =
    NAdopt nat
  | AllPart nat string
  | InvokeThen nat nat nat
  | DataThen nat

text \<open>
  The store.  \<open>strict\<close> says whether the compiled module runs in strict mode;
  \<open>global_data\<close> is the property \<open>data\<close> of the global object.
\<close>

record nstate =
  pq :: "ncallback promise_store"
  resolvables :: "nat \<Rightarrow> resolvable"
  elements :: "nat \<Rightarrow> path_element"
  alls :: "nat \<Rightarrow> all_record"
  anext :: nat
  called :: "(nat \<times> val list) list"
  injector_services :: obj
  strict :: bool
  global_data :: val

definition upd_pq ::
  "(ncallback promise_store \<Rightarrow> ncallback promise_store) \<Rightarrow> nstate \<Rightarrow> nstate" where
  "upd_pq f st = st\<lparr>pq := f (pq st)\<rparr>"

definition upd_resolvable :: "nat \<Rightarrow> (resolvable \<Rightarrow> resolvable) \<Rightarrow> nstate \<Rightarrow> nstate" where
  "upd_resolvable r f st = st\<lparr>resolvables := (resolvables st)(r := f (resolvables st r))\<rparr>"

text \<open>
  \<open>Path.getResolvables(options)\<close>: the elements from the root on, each extending the
  result, the names of \<open>omitOwnLocals\<close> left out of the last element (\<open>elem === last\<close>).
\<close>

fun getResolvables_from :: "nstate \<Rightarrow> nat option \<Rightarrow> string list \<Rightarrow> path \<Rightarrow> (string \<rightharpoonup> nat)
     \<Rightarrow> (string \<rightharpoonup> nat)" where
  "getResolvables_from st lst omitOwnLocals [] memo = memo"
| "getResolvables_from st lst omitOwnLocals (elem # rest) memo =
     getResolvables_from st lst omitOwnLocals rest
       (extend_obj memo
          (omit (resolvables_of (elements st elem))
                (if Some elem = lst then omitOwnLocals else [])))"

definition path_last :: "path \<Rightarrow> nat option" where
  "path_last p = (if p = [] then None else Some (last p))"

definition getResolvables :: "nstate \<Rightarrow> path \<Rightarrow> string list \<Rightarrow> (string \<rightharpoonup> nat)" where
  "getResolvables st p omitOwnLocals =
     getResolvables_from st (path_last p) omitOwnLocals p Map.empty"

text \<open>
  Modelled from the spec: \<open>pick\<close> comes from common.ts.  \<open>pick(obj, keys)\<close> is the object
  of those \<open>keys\<close> that \<open>obj\<close> has, in the order of \<open>keys\<close> (section 4.1: restricts the
  mapping to only the names the function declares as dependencies).
\<close>

fun pick :: "('k \<rightharpoonup> 'v) \<Rightarrow> 'k list \<Rightarrow> ('k \<times> 'v) list" where
  "pick ob [] = []"
| "pick ob (k # ks) =
     (case ob k of
        Some v \<Rightarrow> (k, v) # filter (\<lambda>kv. fst kv \<noteq> k) (pick ob ks)
      | None \<Rightarrow> pick ob ks)"

text \<open>\<open>Path.pathFromRoot(toPathElement)\<close>: \<open>indexOf\<close>, the error, \<open>slice(0, elementIdx + 1)\<close>.\<close>

definition pathFromRoot :: "path \<Rightarrow> nat \<Rightarrow> error + path" where
  "pathFromRoot p toPathElement =
     (let elementIdx = indexOf p toPathElement in
      if elementIdx = -1 then Inl (Error ''This Path does not contain the toPathElement'')
      else Inr (take (nat (elementIdx + 1)) p))"

text \<open>
  \<open>$q.all\<close> on the object of promises \<open>ps\<close> (as the list of its properties): the index
  of the call and the store; the promise is \<open>all_deferred\<close> of the call's record.
\<close>

fun all_chain :: "nat \<Rightarrow> (string \<times> nat) list \<Rightarrow> nstate \<Rightarrow> nstate" where
  "all_chain a [] st = st"
| "all_chain a ((key, p) # ps) st = all_chain a ps (upd_pq (q_then p (AllPart a key)) st)"

definition q_all :: "(string \<times> nat) list \<Rightarrow> nstate \<Rightarrow> nat \<times> nstate" where
  "q_all ps st =
     (let (d, q1) = q_defer (pq st);
          a = anext st;
          st1 = st\<lparr>pq := q1, anext := Suc a,
                   alls := (alls st)(a := \<lparr>counter = int (length ps), results = Map.empty,
                                            all_deferred = d\<rparr>)\<rparr>;
          st2 = all_chain a ps st1
      in (a, if ps = [] then upd_pq (q_resolve d (VResultsOf a)) st2 else st2))"

text \<open>
  The synchronous part of \<open>resolveResolvable\<close>, in three pieces.  First
  \<open>deferred = $q.defer(); this.promise = deferred.promise\<close>.
\<close>

definition start_resolvable :: "nat \<Rightarrow> nstate \<Rightarrow> nstate" where
  "start_resolvable r st =
     (let (d, q1) = q_defer (pq st)
      in upd_resolvable r (\<lambda>x. x\<lparr>promise := Some d\<rparr>) (st\<lparr>pq := q1\<rparr>))"

text \<open>
  Then \<open>pick(pathContext.getResolvables({omitOwnLocals: [this.name]}), this.deps)\<close>.
\<close>

definition depResolvables :: "nat \<Rightarrow> path \<Rightarrow> nstate \<Rightarrow> (string \<times> nat) list" where
  "depResolvables r pathContext st =
     pick (getResolvables st pathContext [name (resolvables st r)]) (deps (resolvables st r))"

text \<open>
  Last, after the promises of the dependencies have been fetched,
  \<open>return $q.all(depPromises).then(locals => {...}).then(function(data) {...})\<close>: the two
  continuations are chained and the last promise of the chain is returned.
\<close>

definition chain_continuations :: "nat \<Rightarrow> (string \<times> nat) list \<Rightarrow> nstate \<Rightarrow> nat \<times> nstate" where
  "chain_continuations r depPromises st =
     (let (a, st3) = q_all depPromises st;
          (b, q4) = q_defer (pq st3);
          st4 = upd_pq (q_then (all_deferred (alls st3 a)) (InvokeThen r a b)) (st3\<lparr>pq := q4\<rparr>);
          (c, q5) = q_defer (pq st4);
          st5 = upd_pq (q_then b (DataThen c)) (st4\<lparr>pq := q5\<rparr>)
      in (c, st5))"

text \<open>
  \<open>Resolvable.get\<close> (\<open>this.promise || this.resolveResolvable(...)\<close>) and
  \<open>Resolvable.resolveResolvable\<close> with its \<open>map\<close> over the dependencies, which calls
  \<open>get\<close> on each; the depth of the mutual calls is bounded by fuel (\<open>None\<close>: the fuel
  ran out).
\<close>

fun get :: "nat \<Rightarrow> nat \<Rightarrow> path \<Rightarrow> nstate \<Rightarrow> (nat \<times> nstate) option"
and resolveResolvable :: "nat \<Rightarrow> nat \<Rightarrow> path \<Rightarrow> nstate \<Rightarrow> (nat \<times> nstate) option"
and get_deps :: "nat \<Rightarrow> (string \<times> nat) list \<Rightarrow> path \<Rightarrow> nstate
                   \<Rightarrow> ((string \<times> nat) list \<times> nstate) option" where
  "get n r pathContext st =
     (case promise (resolvables st r) of
        Some p \<Rightarrow> Some (p, st)
      | None \<Rightarrow> resolveResolvable n r pathContext st)"
| "resolveResolvable 0 r pathContext st = None"
| "resolveResolvable (Suc n) r pathContext st =
     (case get_deps n (depResolvables r pathContext (start_resolvable r st)) pathContext
             (start_resolvable r st) of
        None \<Rightarrow> None
      | Some (depPromises, st2) \<Rightarrow> Some (chain_continuations r depPromises st2))"
| "get_deps n [] pathContext st = Some ([], st)"
| "get_deps n ((key, r) # rest) pathContext st =
     (case get n r pathContext st of
        None \<Rightarrow> None
      | Some (p, st1) \<Rightarrow>
          (case get_deps n rest pathContext st1 of
             None \<Rightarrow> None
           | Some (ps, st2) \<Rightarrow> Some ((key, p) # ps, st2)))"

text \<open>
  Modelled from the spec: \<open>$q\<close> calls a continuation as a plain function, so inside a
  \<open>function\<close> expression \<open>this\<close> is \<open>undefined\<close> in strict mode and the global object
  otherwise; an arrow function keeps the \<open>this\<close> of the method that created it.
\<close>

datatype receiver = ThisResolvable nat | ThisGlobal | ThisUndefined

definition plain_call_receiver :: "nstate \<Rightarrow> receiver" where
  "plain_call_receiver st = (if strict st then ThisUndefined else ThisGlobal)"

text \<open>
  \<open>this.data = data; return this.promise;\<close> for a given \<open>this\<close>: the returned value
  (\<open>Inr\<close>, a promise of the store or \<open>undefined\<close>) or the thrown TypeError.
\<close>

fun store_data :: "receiver \<Rightarrow> val \<Rightarrow> nstate \<Rightarrow> (val + nat option) \<times> nstate" where
  "store_data (ThisResolvable r) v st =
     (Inr (promise (resolvables st r)), upd_resolvable r (\<lambda>x. x\<lparr>data := v\<rparr>) st)"
| "store_data ThisGlobal v st = (Inr None, st\<lparr>global_data := v\<rparr>)"
| "store_data ThisUndefined v st =
     (Inl (VError ''TypeError: Cannot set property data of undefined''), st)"

text \<open>
  Running one queued continuation.  \<open>InvokeThen r a b\<close> is the arrow function: its
  \<open>this\<close> is the Resolvable \<open>r\<close>, its \<open>locals\<close> the results of the \<open>$q.all\<close> call; it
  returns \<open>this.promise\<close>, which \<open>b\<close> then follows.  \<open>DataThen c\<close> is the \<open>function\<close>
  expression, called by \<open>$q\<close> as a plain function.
\<close>

fun run_ncallback :: "ncallback \<Rightarrow> val + val \<Rightarrow> nstate \<Rightarrow> nstate" where
  "run_ncallback (NAdopt p) oc st = upd_pq (q_adopt p oc) st"
| "run_ncallback (AllPart a key) (Inr v) st =
     (let st1 = st\<lparr>alls := (alls st)(a := (alls st a)\<lparr>results := (results (alls st a))(key \<mapsto> v),
                                                     counter := counter (alls st a) - 1\<rparr>)\<rparr>
      in if counter (alls st1 a) = 0
         then upd_pq (q_resolve (all_deferred (alls st1 a)) (VResultsOf a)) st1 else st1)"
| "run_ncallback (AllPart a key) (Inl reason) st =
     upd_pq (q_reject (all_deferred (alls st a)) reason) st"
| "run_ncallback (InvokeThen r a b) (Inr v) st =
     (let this = resolvables st r;
          d = the (promise this);
          st1 = (case injector_args (injector_services st) (results (alls st a)) (deps this) of
                   Inl e \<Rightarrow> upd_pq (q_reject d e) st
                 | Inr args \<Rightarrow>
                     (case resolveFn this (AObj (state this)) args of
                        Throw e \<Rightarrow> upd_pq (q_reject d e) (st\<lparr>called := called st @ [(r, args)]\<rparr>)
                      | oc \<Rightarrow> upd_pq (q_resolve_with NAdopt d oc)
                                (st\<lparr>called := called st @ [(r, args)]\<rparr>)))
      in upd_pq (q_resolve_promise NAdopt b d) st1)"
| "run_ncallback (InvokeThen r a b) (Inl reason) st = upd_pq (q_reject b reason) st"
| "run_ncallback (DataThen c) (Inr v) st =
     (case store_data (plain_call_receiver st) v st of
        (Inl e, st1) \<Rightarrow> upd_pq (q_reject c e) st1
      | (Inr None, st1) \<Rightarrow> upd_pq (q_resolve c VUndefined) st1
      | (Inr (Some p), st1) \<Rightarrow> upd_pq (q_resolve_promise NAdopt c p) st1)"
| "run_ncallback (DataThen c) (Inl reason) st = upd_pq (q_reject c reason) st"

fun ndrain :: "nat \<Rightarrow> nstate \<Rightarrow> nstate option" where
  "ndrain n st =
     (case queue (pq st) of
        [] \<Rightarrow> Some st
      | (cb, oc) # rest \<Rightarrow>
          (case n of
             0 \<Rightarrow> None
           | Suc m \<Rightarrow> ndrain m (run_ncallback cb oc (upd_pq (\<lambda>x. x\<lparr>queue := rest\<rparr>) st))))"

text \<open>
  \<open>PathElement.invokeNow(fn, locals, pathContext, options)\<close> for the element \<open>this\<close>
  and a function with its annotated dependencies: the object handed to
  \<open>$injector.invoke\<close> is \<open>extend({}, locals, moreLocals)\<close>.
\<close>

definition moreLocals :: "nstate \<Rightarrow> (string \<times> nat) list \<Rightarrow> obj" where
  "moreLocals st rs = map_of (map (\<lambda>(k, r). (k, data (resolvables st r))) rs)"

definition combinedLocals :: "nstate \<Rightarrow> path \<Rightarrow> string list \<Rightarrow> obj \<Rightarrow> obj" where
  "combinedLocals st sub fn_deps lcls =
     extend_obj (extend_obj Map.empty lcls)
       (moreLocals st (pick (getResolvables st sub []) fn_deps))"

definition invokeNow ::
  "nat \<Rightarrow> string list \<Rightarrow> jsfun \<Rightarrow> obj \<Rightarrow> path \<Rightarrow> nstate \<Rightarrow> error + outcome" where
  "invokeNow this fn_deps fn lcls pathContext st =
     (case pathFromRoot pathContext this of
        Inl e \<Rightarrow> Inl e
      | Inr sub \<Rightarrow>
          (case injector_args (injector_services st) (combinedLocals st sub fn_deps lcls) fn_deps of
             Inl e \<Rightarrow> Inr (Throw e)
           | Inr args \<Rightarrow> Inr (fn (AObj (element_state (elements st this))) args)))"

definition nstate_init :: "bool \<Rightarrow> obj \<Rightarrow> nstate" where
  "nstate_init strct svc =
     \<lparr>pq = q_empty,
      resolvables = (\<lambda>_. \<lparr>name = [], resolveFn = (\<lambda>_ _. Return VUndefined), state = Map.empty,
                           deps = [], promise = None, data = VUndefined\<rparr>),
      elements = (\<lambda>_. \<lparr>element_state = Map.empty, resolvables_of = Map.empty\<rparr>),
      alls = (\<lambda>_. \<lparr>counter = 0, results = Map.empty, all_deferred = 0\<rparr>),
      anext = 0, called = [], injector_services = svc, strict = strct, global_data = VUndefined\<rparr>"

text \<open>
  \<open>new Resolvable(name, resolveFn, state)\<close> stored at index \<open>r\<close>, and a PathElement
  stored at index \<open>e\<close>.
\<close>

definition new_resolvable ::
  "nat \<Rightarrow> string \<Rightarrow> string list \<Rightarrow> jsfun \<Rightarrow> obj \<Rightarrow> nstate \<Rightarrow> nstate" where
  "new_resolvable r nm ds fn s st =
     st\<lparr>resolvables := (resolvables st)(r :=
           \<lparr>name = nm, resolveFn = fn, state = s, deps = ds, promise = None, data = VUndefined\<rparr>)\<rparr>"

definition new_element :: "nat \<Rightarrow> obj \<Rightarrow> (string \<rightharpoonup> nat) \<Rightarrow> nstate \<Rightarrow> nstate" where
  "new_element e s rs st =
     st\<lparr>elements := (elements st)(e := \<lparr>element_state = s, resolvables_of = rs\<rparr>)\<rparr>"

text \<open>
  Counting, for a Resolvable: the continuations still to run that call its function (the
  arrow functions chained by \<open>resolveResolvable\<close>), and the calls of its function so
  far.
\<close>

fun is_invoke_of :: "nat \<Rightarrow> ncallback \<Rightarrow> bool" where
  "is_invoke_of r (InvokeThen r' a b) = (r' = r)"
| "is_invoke_of r cb = False"

definition scheduled_q :: "nat \<Rightarrow> ncallback promise_store \<Rightarrow> nat" where
  "scheduled_q r qs =
     length (filter (\<lambda>h. is_invoke_of r (snd h)) (handlers qs))
     + length (filter (\<lambda>t. is_invoke_of r (fst t)) (queue qs))"

definition scheduled :: "nat \<Rightarrow> nstate \<Rightarrow> nat" where
  "scheduled r st = scheduled_q r (pq st)"

definition calls :: "nat \<Rightarrow> nstate \<Rightarrow> nat" where
  "calls r st = length (filter (\<lambda>e. fst e = r) (called st))"

definition keeps :: "nat \<Rightarrow> nstate \<Rightarrow> nstate \<Rightarrow> bool" where
  "keeps r st st' =
     (promise (resolvables st' r) = promise (resolvables st r)
      \<and> scheduled r st' = scheduled r st \<and> calls r st' = calls r st)"

text \<open>
  The Resolvables that the elements of a path declare, and how many of them have not
  been requested yet: the bound on the depth of the mutual calls of \<open>get\<close> and
  \<open>resolveResolvable\<close>.
\<close>

definition scope_resolvables :: "nstate \<Rightarrow> path \<Rightarrow> nat set" where
  "scope_resolvables st p = (\<Union>e \<in> set p. ran (resolvables_of (elements st e)))"

definition unrequested :: "nstate \<Rightarrow> path \<Rightarrow> nat" where
  "unrequested st p = card {r \<in> scope_resolvables st p. promise (resolvables st r) = None}"

section \<open>Notions used to state the properties of plan execution\<close>

text \<open>
  A sequence of events from outside: each settles a pending promise of the store, the
  queue being drained before the first event and after each.
\<close>

fun run_events :: "nat \<Rightarrow> (nat \<times> (val + val)) list \<Rightarrow> lstate \<Rightarrow> lstate option" where
  "run_events n [] st = drain n st"
| "run_events n ((p, oc) # evs) st =
     (case drain n st of
        None \<Rightarrow> None
      | Some st1 \<Rightarrow>
          run_events n evs (if pstates (q st1) p = Pending then upd_q (q_settle p oc) st1 else st1))"

text \<open>
  The continuation \<open>cb\<close> is chained on the promise \<open>p\<close>: it waits among the handlers
  while \<open>p\<close> is pending, and is queued with the outcome of \<open>p\<close> once \<open>p\<close> is settled.
\<close>

definition chained :: "'cb promise_store \<Rightarrow> nat \<Rightarrow> 'cb \<Rightarrow> bool" where
  "chained qs p cb =
     (case pstates qs p of
        Fulfilled v \<Rightarrow> (cb, Inr v) \<in> set (queue qs)
      | Rejected e \<Rightarrow> (cb, Inl e) \<in> set (queue qs)
      | _ \<Rightarrow> (p, cb) \<in> set (handlers qs))"

text \<open>
  A continuation respects the name \<open>x\<close> of the resolution \<open>r\<close> when it neither belongs
  to an \<open>__invoke\<close> of \<open>x\<close> in \<open>r\<close> nor stores a result under \<open>x\<close> in \<open>r\<close>.
\<close>

fun cb_respects :: "nat \<Rightarrow> string \<Rightarrow> lcallback \<Rightarrow> bool" where
  "cb_respects r x (ParamThen r' key dep) = (r' \<noteq> r \<or> (key \<noteq> x \<and> dep \<noteq> x))"
| "cb_respects r x (InvocationThen r' key) = (r' \<noteq> r \<or> key \<noteq> x)"
| "cb_respects r x cb = True"

definition cbs_respect :: "nat \<Rightarrow> string \<Rightarrow> lcallback promise_store \<Rightarrow> bool" where
  "cbs_respect r x qs =
     ((\<forall>h \<in> set (handlers qs). cb_respects r x (snd h))
      \<and> (\<forall>t \<in> set (queue qs). cb_respects r x (fst t)))"

text \<open>
  The local \<open>x = v\<close> of the resolution \<open>r\<close> is kept: it is a local and the value under
  \<open>x\<close>, no \<open>__invoke\<close> was made for \<open>x\<close>, the invocable \<open>x\<close> was not called, and every
  continuation respects \<open>x\<close>.
\<close>

definition local_kept :: "nat \<Rightarrow> string \<Rightarrow> val \<Rightarrow> lstate \<Rightarrow> bool" where
  "local_kept r x v st =
     (locals (resolutions st r) x = Some v \<and> values (resolutions st r) x = Some v
      \<and> closures (resolutions st r) x = None
      \<and> (\<forall>args. (r, x, args) \<notin> set (invoked st))
      \<and> cbs_respect r x (q st))"

text \<open>
  A store in which the next resolution is fresh: no continuation and no log entry refers
  to it yet.
\<close>

definition fresh_store :: "lstate \<Rightarrow> bool" where
  "fresh_store st =
     ((\<forall>x. cbs_respect (rnext st) x (q st))
      \<and> (\<forall>k args. (rnext st, k, args) \<notin> set (invoked st)))"

text \<open>
  Two stores agree on what the names of every resolution stand for: its promises, locals,
  values and parent.
\<close>

definition same_names :: "lstate \<Rightarrow> lstate \<Rightarrow> bool" where
  "same_names st st' =
     (\<forall>r. promises (resolutions st' r) = promises (resolutions st r)
          \<and> locals (resolutions st' r) = locals (resolutions st r)
          \<and> values (resolutions st' r) = values (resolutions st r)
          \<and> parent (resolutions st' r) = parent (resolutions st r))"

text \<open>
  Two stores agree on the arguments every resolution was called with: its locals, its
  parent and its \<open>self\<close>.
\<close>

definition same_args :: "lstate \<Rightarrow> lstate \<Rightarrow> bool" where
  "same_args st st' =
     (\<forall>r. locals (resolutions st' r) = locals (resolutions st r)
          \<and> parent (resolutions st' r) = parent (resolutions st r)
          \<and> self (resolutions st' r) = self (resolutions st r))"

section \<open>Concrete functions and calls used to evaluate the model\<close>

definition throws :: "val \<Rightarrow> jsfun" where
  "throws e = (\<lambda>slf args. Throw e)"

definition returns :: "val \<Rightarrow> jsfun" where
  "returns v = (\<lambda>slf args. Return v)"

text \<open>\<open>function(x) { return x + 1; }\<close> and \<open>function(x) { return x * 10; }\<close> on numbers.\<close>

definition increment :: jsfun where
  "increment = (\<lambda>slf args. case args of [VNum n] \<Rightarrow> Return (VNum (n + 1))
                              | _ \<Rightarrow> Throw (VError ''not a number''))"

definition times_ten :: jsfun where
  "times_ten = (\<lambda>slf args. case args of [VNum n] \<Rightarrow> Return (VNum (n * 10))
                              | _ \<Rightarrow> Throw (VError ''not a number''))"

text \<open>\<open>function(x) { return x; }\<close>.\<close>

definition first_argument :: jsfun where
  "first_argument = (\<lambda>slf args. case args of v # _ \<Rightarrow> Return v | [] \<Rightarrow> Return VUndefined)"

text \<open>
  What a caller observes of a call of the legacy resolver: the state of the returned
  promise, \<open>$$failure\<close> and the log of the invocables called so far.
\<close>

definition observed ::
  "(error + (nat \<times> lstate)) option \<Rightarrow> (pstate \<times> val \<times> (nat \<times> string \<times> val list) list) option" where
  "observed x =
     (case x of
        Some (Inr (r, st)) \<Rightarrow>
          Some (pstates (q st) (resolution_promise (resolutions st r)),
                failure (resolutions st r), invoked st)
      | _ \<Rightarrow> None)"

text \<open>The call followed by draining the queue (at most 100 continuations).\<close>

definition settled :: "(error + (nat \<times> lstate)) option \<Rightarrow> (nat \<times> lstate) option" where
  "settled x =
     (case x of
        Some (Inr (r, st)) \<Rightarrow> map_option (Pair r) (drain 100 st)
      | _ \<Rightarrow> None)"

definition observed_settled ::
  "(nat \<times> lstate) option \<Rightarrow> (pstate \<times> val \<times> (nat \<times> string \<times> val list) list) option" where
  "observed_settled x =
     (case x of
        Some (r, st) \<Rightarrow>
          Some (pstates (q st) (resolution_promise (resolutions st r)),
                failure (resolutions st r), invoked st)
      | None \<Rightarrow> None)"

text \<open>
  A path of one element whose Resolvable \<open>x\<close> holds the resolved value 7 in its \<open>data\<close>
  slot.
\<close>

definition example_path_state :: nstate where
  "example_path_state =
     upd_resolvable 0 (\<lambda>x. x\<lparr>data := VNum 7\<rparr>)
       (new_element 0 Map.empty [''x'' \<mapsto> 0]
          (new_resolvable 0 ''x'' [] (returns (VNum 7)) Map.empty (nstate_init True Map.empty)))"

text \<open>
  A path of one element with the Resolvable \<open>a\<close> of \<open>function() { return 42; }\<close>, not
  yet requested, in strict mode or not.
\<close>

definition example_unresolved :: "bool \<Rightarrow> nstate" where
  "example_unresolved strct =
     new_element 0 Map.empty [''a'' \<mapsto> 0]
       (new_resolvable 0 ''a'' [] (returns (VNum 42)) Map.empty (nstate_init strct Map.empty))"

text \<open>
  After a \<open>get\<close> and draining the queue: the state of the Resolvable's promise, its
  \<open>data\<close> slot and the log of the functions called.
\<close>

definition resolved_slots ::
  "nat \<Rightarrow> (nat \<times> nstate) option \<Rightarrow> (pstate option \<times> val \<times> (nat \<times> val list) list) option" where
  "resolved_slots r x =
     (case x of
        Some (c, st) \<Rightarrow>
          (case ndrain 100 st of
             Some st' \<Rightarrow> Some (map_option (pstates (pq st')) (promise (resolvables st' r)),
                               data (resolvables st' r), called st')
           | None \<Rightarrow> None)
      | None \<Rightarrow> None)"

text \<open>
  The Resolvable \<open>a\<close> requested in strict mode, and the store after the queue is
  drained.
\<close>

definition example_get1 :: "nat \<times> nstate" where
  "example_get1 = the (get 2 0 [0] (example_unresolved True))"

definition example_drained1 :: nstate where
  "example_drained1 = the (ndrain 100 (snd example_get1))"

text \<open>
  The call with the local \<open>x = 5\<close> for the plan of the invocables \<open>x\<close> (returning 7) and
  \<open>y\<close> (adding one to \<open>x\<close>), and the store after the queue is drained.
\<close>

definition example_locals_call :: "error + (nat \<times> lstate)" where
  "example_locals_call =
     resolve_with_plan
       [(''x'', Invoke (returns (VNum 7)), []), (''y'', Invoke increment, [''x''])]
       [''x'', ''y''] (AObj [''x'' \<mapsto> VNum 5]) AUndefined AUndefined (lstate_init Map.empty)"

definition example_locals_run :: lstate where
  "example_locals_run = the (run_events 100 [] (snd (projr example_locals_call)))"

section \<open>Properties of plan compilation\<close>












































section \<open>Properties of plan execution\<close>

text \<open>
  C7, evaluated where it fails: \<open>a\<close> throws \<open>undefined\<close> and \<open>c\<close> does not depend on it.
  The call rejects the resolution with \<open>a\<close>'s reason, \<open>$$failure\<close> stays undefined, and
  \<open>c\<close> is called after \<open>a\<close> has failed.  With a defined reason \<open>c\<close> is not called.
\<close>

theorem undefined_failure_does_not_stop_plan:
  "observed (resolve [(''a'', Fun [] (throws VUndefined)), (''c'', Fun [] (returns (VNum 1)))]
               AUndefined AUndefined AUndefined (lstate_init Map.empty))
     = Some (Rejected VUndefined, VUndefined, [(0, ''a'', []), (0, ''c'', [])])
   \<and> observed (resolve [(''a'', Fun [] (throws (VError ''boom''))),
                         (''c'', Fun [] (returns (VNum 1)))]
               AUndefined AUndefined AUndefined (lstate_init Map.empty))
     = Some (Rejected (VError ''boom''), VError ''boom'', [(0, ''a'', [])])"
  by code_simp

text \<open>
  C8, evaluated where it fails: the parent has failed with the reason \<open>undefined\<close>.  The
  child's call does not fail at once: it returns a pending promise and has called its
  invocable \<open>b\<close>; only draining the queue rejects it.  A parent that failed with a defined
  reason makes the child fail at once, with nothing called.
\<close>

theorem parent_failed_with_undefined_not_short_circuited:
  "(case settled (resolve [(''a'', Fun [] (throws VUndefined))]
                    AUndefined AUndefined AUndefined (lstate_init Map.empty)) of
      Some (p, st) \<Rightarrow>
        pstates (q st) (resolution_promise (resolutions st p)) = Rejected VUndefined
        \<and> observed (resolve [(''b'', Fun [] (returns (VNum 1)))] AUndefined (AResolve p) AUndefined st)
            = Some (Pending, VUndefined, [(0, ''a'', []), (1, ''b'', [])])
        \<and> observed_settled (settled (resolve [(''b'', Fun [] (returns (VNum 1)))]
                                         AUndefined (AResolve p) AUndefined st))
            = Some (Rejected VUndefined, VUndefined, [(0, ''a'', []), (1, ''b'', [])])
    | None \<Rightarrow> False)
   \<and> (case settled (resolve [(''a'', Fun [] (throws (VError ''boom'')))]
                    AUndefined AUndefined AUndefined (lstate_init Map.empty)) of
      Some (p, st) \<Rightarrow>
        observed (resolve [(''b'', Fun [] (returns (VNum 1)))] AUndefined (AResolve p) AUndefined st)
            = Some (Rejected (VError ''boom''), VError ''boom'', [(0, ''a'', [])])
    | None \<Rightarrow> False)"
  by code_simp

text \<open>
  C6 as stated fails: the parent resolution is resolved with \<open>x = 1\<close> from its locals;
  the child's invocable \<open>x\<close>, which declares the parameter \<open>x\<close>, is not resolved against
  that value: no promise is registered under \<open>x\<close>, the injector looks for a service
  \<open>x\<close>, and the child resolution is rejected without the invocable being called.
\<close>

theorem self_dependency_parent_local_counterexample:
  "(case settled (resolve [] (AObj [''x'' \<mapsto> VNum 1]) AUndefined AUndefined
                    (lstate_init Map.empty)) of
      Some (p, st) \<Rightarrow>
        pstates (q st) (resolution_promise (resolutions st p)) = Fulfilled (VValuesOf p)
        \<and> values (resolutions st p) ''x'' = Some (VNum 1)
        \<and> observed_settled (settled (resolve [(''x'', Fun [''x''] increment)]
                                         AUndefined (AResolve p) AUndefined st))
            = Some (Rejected (VError ''Unknown provider: x''), VError ''Unknown provider: x'', [])
    | None \<Rightarrow> False)"
  by code_simp

text \<open>
  What the two checks of \<open>$$failure\<close> do when the recorded reason is defined:
  \<open>proceed\<close> calls nothing, and a call with such a parent fails at once with the
  parent's reason, nothing being called.
\<close>

lemma proceed_after_failure:
  "isDefined (failure (resolutions st r)) \<Longrightarrow> proceed r key st = st"
  by (simp add: proceed_def)

lemma parent_failure_short_circuit:
  assumes "isDefined (failure (resolutions st p))" and "p \<noteq> rnext st"
    and "resolve_with_plan pl ks a_locals (AResolve p) a_self st = Inr (r, st')"
    and "\<not> is_undefined a_self"
  shows "failure (resolutions st' r) = failure (resolutions st p)
         \<and> pstates (q st') (resolution_promise (resolutions st' r))
             = Rejected (failure (resolutions st p))
         \<and> invoked st' = invoked st"
  using assms
  by (auto simp: resolve_with_plan_def resolve_args_def shift_args_def Let_def parent_failure_def
        fail_def upd_res_def upd_q_def q_defer_def q_reject_def q_settle_def
      split: if_splits prod.splits)

section \<open>Properties of Resolvable and PathElement\<close>

lemma resolvables_upd_pq [simp]: "resolvables (upd_pq f st) = resolvables st"
  by (simp add: upd_pq_def)

lemma map_of_filter_fst:
  "map_of (map (\<lambda>(k, r). (k, g r)) (filter (\<lambda>kv. fst kv \<noteq> k0) xs)) n
     = (if n = k0 then None else map_of (map (\<lambda>(k, r). (k, g r)) xs) n)"
  by (induction xs) auto

lemma moreLocals_pick:
  "moreLocals st (pick m ds) n
     = (if n \<in> set ds then map_option (\<lambda>r. data (resolvables st r)) (m n) else None)"
proof (induction ds)
  case Nil
  then show ?case by (simp add: moreLocals_def)
next
  case (Cons d ds)
  show ?case
  proof (cases "m d")
    case None
    with Cons show ?thesis by (auto simp: moreLocals_def)
  next
    case (Some v)
    with Cons show ?thesis by (auto simp: moreLocals_def map_of_filter_fst)
  qed
qed

lemma combinedLocals_apply:
  "combinedLocals st sub fn_deps lcls n
     = (case (if n \<in> set fn_deps then getResolvables st sub [] n else None) of
          Some r \<Rightarrow> Some (data (resolvables st r))
        | None \<Rightarrow> lcls n)"
  by (auto simp: combinedLocals_def extend_obj_def moreLocals_pick split: option.splits)

lemma injector_args_nth:
  "injector_args svc m ds = Inr args \<Longrightarrow> i < length ds \<Longrightarrow>
     args ! i = (case m (ds ! i) of Some v \<Rightarrow> v | None \<Rightarrow> the (svc (ds ! i)))"
proof (induction ds arbitrary: args i)
  case Nil
  then show ?case by simp
next
  case (Cons d ds)
  from Cons.prems(1) obtain v vs where v: "(if m d \<noteq> None then m d else svc d) = Some v"
    and vs: "injector_args svc m ds = Inr vs" and args: "args = v # vs"
    by (auto split: option.splits sum.splits if_splits)
  show ?case
  proof (cases i)
    case 0
    with v args show ?thesis by (auto split: option.splits if_splits)
  next
    case (Suc j)
    with Cons.prems(2) have "j < length ds" by simp
    from Cons.IH[OF vs this] Suc args show ?thesis by (auto split: option.splits)
  qed
qed

text \<open>
  C1 as amended: \<open>invokeNow\<close> calls the function with one argument per declared
  parameter; for a parameter that names a Resolvable in scope (root to this element) the
  argument is that Resolvable's \<open>data\<close> slot, whatever \<open>locals\<close> holds under the name;
  a local is passed only for a parameter that names no Resolvable in scope, and a service
  of the injector when there is no local either.
\<close>

theorem invokeNow_passes_resolved_data:
  assumes "pathFromRoot pathContext this = Inr sub"
    and "injector_args (injector_services st) (combinedLocals st sub fn_deps lcls) fn_deps = Inr args"
    and "i < length fn_deps"
  shows "invokeNow this fn_deps fn lcls pathContext st
           = Inr (fn (AObj (element_state (elements st this))) args)
         \<and> args ! i =
             (case getResolvables st sub [] (fn_deps ! i) of
                Some r \<Rightarrow> data (resolvables st r)
              | None \<Rightarrow> (case lcls (fn_deps ! i) of
                           Some v \<Rightarrow> v
                         | None \<Rightarrow> the (injector_services st (fn_deps ! i))))"
proof -
  from assms(1,2) have "invokeNow this fn_deps fn lcls pathContext st
           = Inr (fn (AObj (element_state (elements st this))) args)"
    by (simp add: invokeNow_def)
  moreover from assms(3) have "fn_deps ! i \<in> set fn_deps" by simp
  with injector_args_nth[OF assms(2,3)]
  have "args ! i =
             (case getResolvables st sub [] (fn_deps ! i) of
                Some r \<Rightarrow> data (resolvables st r)
              | None \<Rightarrow> (case lcls (fn_deps ! i) of
                           Some v \<Rightarrow> v
                         | None \<Rightarrow> the (injector_services st (fn_deps ! i))))"
    by (simp add: combinedLocals_apply split: option.splits)
  ultimately show ?thesis by simp
qed

text \<open>
  C1 as stated fails: with the local \<open>x = 5\<close> and the Resolvable \<open>x\<close> in scope holding 7,
  a function that returns its parameter \<open>x\<close> returns 7.
\<close>

theorem invokeNow_local_loses_counterexample:
  "invokeNow 0 [''x''] first_argument [''x'' \<mapsto> VNum 5] [0] example_path_state
     = Inr (Return (VNum 7))"
  by code_simp

lemma example_path_facts:
  "pathFromRoot [0] 0 = Inr [0]"
  "injector_args (injector_services example_path_state)
     (combinedLocals example_path_state [0] [''x''] [''x'' \<mapsto> VNum 5]) [''x''] = Inr [VNum 7]"
  "getResolvables example_path_state [0] [] ''x'' = Some 0"
  "data (resolvables example_path_state 0) = VNum 7"
  by code_simp+

text \<open>The theorem at the same call: the argument passed for \<open>x\<close> is the \<open>data\<close> slot, 7.\<close>

theorem invokeNow_passes_resolved_data_witness:
  "pathFromRoot [0] 0 = Inr [0]
   \<and> injector_args (injector_services example_path_state)
        (combinedLocals example_path_state [0] [''x''] [''x'' \<mapsto> VNum 5]) [''x''] = Inr [VNum 7]
   \<and> (0::nat) < length [''x'']
   \<and> invokeNow 0 [''x''] first_argument [''x'' \<mapsto> VNum 5] [0] example_path_state
        = Inr (first_argument (AObj (element_state (elements example_path_state 0))) [VNum 7])
   \<and> [VNum 7] ! 0 = data (resolvables example_path_state 0)"
  using invokeNow_passes_resolved_data[OF example_path_facts(1) example_path_facts(2),
          where i = 0 and fn = first_argument]
    example_path_facts
  by simp

text \<open>
  C2, evaluated where it fails: a Resolvable without dependencies whose function returns
  42 is requested and the queue drained.  Its promise is fulfilled with 42, the function
  was called once, and its \<open>data\<close> slot is still \<open>undefined\<close>, in strict mode and
  otherwise: the continuation that stores the value is a \<open>function\<close> expression, so its
  \<open>this\<close> is not the Resolvable.  No continuation of the model ever changes a
  \<open>data\<close> slot.
\<close>

theorem resolved_value_never_stored:
  "resolved_slots 0 (get 1 0 [0] (example_unresolved True))
     = Some (Some (Fulfilled (VNum 42)), VUndefined, [(0, [])])
   \<and> resolved_slots 0 (get 1 0 [0] (example_unresolved False))
     = Some (Some (Fulfilled (VNum 42)), VUndefined, [(0, [])])
   \<and> data (resolvables (run_ncallback cb oc st) r) = data (resolvables st r)"
proof -
  have ev: "resolved_slots 0 (get 1 0 [0] (example_unresolved True))
     = Some (Some (Fulfilled (VNum 42)), VUndefined, [(0, [])])
   \<and> resolved_slots 0 (get 1 0 [0] (example_unresolved False))
     = Some (Some (Fulfilled (VNum 42)), VUndefined, [(0, [])])"
    by code_simp
  have "data (resolvables (run_ncallback cb oc st) r) = data (resolvables st r)"
  proof (cases cb)
    case (NAdopt x1)
    then show ?thesis by simp
  next
    case (AllPart a key)
    then show ?thesis by (cases oc) (simp_all add: Let_def)
  next
    case (InvokeThen r' a b)
    then show ?thesis
      by (cases oc) (simp_all add: Let_def split: sum.splits outcome.splits)
  next
    case (DataThen c)
    then show ?thesis
      by (cases oc) (auto simp: plain_call_receiver_def split: option.splits sum.splits)
  qed
  with ev show ?thesis by simp
qed

lemma called_upd_pq [simp]: "called (upd_pq f st) = called st"
  by (simp add: upd_pq_def)

lemma pq_upd_pq [simp]: "pq (upd_pq f st) = f (pq st)"
  by (simp add: upd_pq_def)

lemma scheduled_upd_pq: "scheduled r (upd_pq f st) = scheduled_q r (f (pq st))"
  by (simp add: scheduled_def)

lemma filter_settle_count:
  "length (filter (\<lambda>h. Q (snd h)) (filter (\<lambda>h. fst h \<noteq> p) hs))
     + length (filter (\<lambda>t. Q (fst t)) (map (\<lambda>h. (snd h, oc)) (filter (\<lambda>h. fst h = p) hs)))
   = length (filter (\<lambda>h. Q (snd h)) hs)"
  by (induction hs) auto

lemma scheduled_q_settle [simp]: "scheduled_q r (q_settle p oc qs) = scheduled_q r qs"
  using filter_settle_count[of "is_invoke_of r" p "handlers qs" oc]
  by (simp add: scheduled_q_def q_settle_def)

lemma scheduled_q_resolve [simp]: "scheduled_q r (q_resolve p v qs) = scheduled_q r qs"
  by (simp add: q_resolve_def)

lemma scheduled_q_reject [simp]: "scheduled_q r (q_reject p v qs) = scheduled_q r qs"
  by (simp add: q_reject_def)

lemma scheduled_q_adopt [simp]: "scheduled_q r (q_adopt p oc qs) = scheduled_q r qs"
  by (simp add: q_adopt_def split: pstate.splits)

lemma scheduled_q_then [simp]:
  "scheduled_q r (q_then p cb qs) = scheduled_q r qs + (if is_invoke_of r cb then 1 else 0)"
  by (simp add: q_then_def scheduled_q_def split: pstate.splits)

lemma scheduled_q_pstates [simp]:
  "scheduled_q r (qs\<lparr>pstates := ps\<rparr>) = scheduled_q r qs"
  "scheduled_q r (qs\<lparr>pnext := k\<rparr>) = scheduled_q r qs"
  by (simp_all add: scheduled_q_def)

lemma scheduled_q_resolve_promise [simp]:
  "scheduled_q r (q_resolve_promise NAdopt p p' qs) = scheduled_q r qs"
  by (simp add: q_resolve_promise_def)

lemma scheduled_q_resolve_with [simp]:
  "scheduled_q r (q_resolve_with NAdopt p oc qs) = scheduled_q r qs"
  by (cases oc) simp_all

lemma scheduled_q_defer [simp]: "scheduled_q r (snd (q_defer qs)) = scheduled_q r qs"
  by (simp add: q_defer_def)

lemma keeps_refl [simp]: "keeps r st st"
  by (simp add: keeps_def)

lemma keeps_trans: "keeps r st st1 \<Longrightarrow> keeps r st1 st2 \<Longrightarrow> keeps r st st2"
  by (simp add: keeps_def)

lemma start_resolvable_promise:
  "promise (resolvables (start_resolvable r st) r) = Some (pnext (pq st))"
  by (simp add: start_resolvable_def q_defer_def upd_resolvable_def)

lemma start_resolvable_other:
  "r0 \<noteq> r \<Longrightarrow> keeps r0 st (start_resolvable r st)"
  by (simp add: start_resolvable_def q_defer_def upd_resolvable_def keeps_def scheduled_def
      calls_def)

lemma start_resolvable_counts:
  "scheduled r0 (start_resolvable r st) = scheduled r0 st"
  "calls r0 (start_resolvable r st) = calls r0 st"
  by (simp_all add: start_resolvable_def q_defer_def upd_resolvable_def scheduled_def calls_def)

lemma all_chain_frame:
  "resolvables (all_chain a ps st) = resolvables st
   \<and> called (all_chain a ps st) = called st
   \<and> scheduled r0 (all_chain a ps st) = scheduled r0 st
   \<and> alls (all_chain a ps st) = alls st
   \<and> anext (all_chain a ps st) = anext st"
proof (induction ps arbitrary: st)
  case Nil
  then show ?case by simp
next
  case (Cons kp ps)
  obtain key p where kp: "kp = (key, p)" by (cases kp)
  have "scheduled r0 (upd_pq (q_then p (AllPart a key)) st) = scheduled r0 st"
    by (simp add: scheduled_upd_pq) (simp add: scheduled_def)
  with Cons[of "upd_pq (q_then p (AllPart a key)) st"] kp show ?case
    by (simp add: upd_pq_def)
qed

lemma q_all_frame:
  assumes "q_all ps st = (a, st')"
  shows "resolvables st' = resolvables st \<and> called st' = called st
         \<and> scheduled r0 st' = scheduled r0 st"
proof -
  define st1 where "st1 = st\<lparr>pq := snd (q_defer (pq st)), anext := Suc (anext st),
                   alls := (alls st)(anext st := \<lparr>counter = int (length ps), results = Map.empty,
                                            all_deferred = fst (q_defer (pq st))\<rparr>)\<rparr>"
  have s1: "resolvables st1 = resolvables st" "called st1 = called st"
    "scheduled r0 st1 = scheduled r0 st"
    by (simp_all add: st1_def scheduled_def)
  from assms have "st' = (if ps = []
      then upd_pq (q_resolve (fst (q_defer (pq st))) (VResultsOf (anext st))) (all_chain (anext st) ps st1)
      else all_chain (anext st) ps st1)"
    by (auto simp: q_all_def Let_def st1_def split: prod.splits)
  with all_chain_frame[of "anext st" ps st1 r0] s1 show ?thesis
    by (auto simp: scheduled_upd_pq) (simp add: scheduled_def)
qed

lemma chain_continuations_frame:
  assumes "chain_continuations r dps st = (c, st')"
  shows "resolvables st' = resolvables st \<and> called st' = called st
         \<and> scheduled r0 st' = scheduled r0 st + (if r0 = r then 1 else 0)"
proof -
  obtain a st3 where qa: "q_all dps st = (a, st3)" by (cases "q_all dps st")
  from q_all_frame[OF qa, of r0] have f3: "resolvables st3 = resolvables st"
    "called st3 = called st" "scheduled r0 st3 = scheduled r0 st" by simp_all
  define b where "b = fst (q_defer (pq st3))"
  define st4 where "st4 = upd_pq (q_then (all_deferred (alls st3 a)) (InvokeThen r a b))
                            (st3\<lparr>pq := snd (q_defer (pq st3))\<rparr>)"
  have f4: "resolvables st4 = resolvables st3" "called st4 = called st3"
    "scheduled r0 st4 = scheduled r0 st3 + (if r0 = r then 1 else 0)"
    by (simp_all add: st4_def scheduled_upd_pq) (simp add: scheduled_def)
  define st5 where "st5 = upd_pq (q_then (fst (q_defer (pq st3))) (DataThen (fst (q_defer (pq st4)))))
                            (st4\<lparr>pq := snd (q_defer (pq st4))\<rparr>)"
  have f5: "resolvables st5 = resolvables st4" "called st5 = called st4"
    "scheduled r0 st5 = scheduled r0 st4"
    by (simp_all add: st5_def scheduled_upd_pq) (simp add: scheduled_def)
  from assms qa have "st' = st5"
    by (simp add: chain_continuations_def Let_def st5_def st4_def b_def split: prod.splits)
  with f3 f4 f5 show ?thesis by simp
qed

lemma get_keeps:
  "promise (resolvables st r0) \<noteq> None \<longrightarrow>
     (\<forall>x st'. get n r pathContext st = Some (x, st') \<longrightarrow> keeps r0 st st')"
  and resolveResolvable_keeps:
  "r \<noteq> r0 \<longrightarrow> promise (resolvables st r0) \<noteq> None \<longrightarrow>
     (\<forall>x st'. resolveResolvable n r pathContext st = Some (x, st') \<longrightarrow> keeps r0 st st')"
  and get_deps_keeps:
  "promise (resolvables st r0) \<noteq> None \<longrightarrow>
     (\<forall>x st'. get_deps n rs pathContext st = Some (x, st') \<longrightarrow> keeps r0 st st')"
proof (induction n r pathContext st and n r pathContext st and n rs pathContext st
       rule: get_resolveResolvable_get_deps.induct)
  case (1 n r pathContext st)
  show ?case
  proof (intro impI allI)
    fix x st'
    assume p0: "promise (resolvables st r0) \<noteq> None"
      and g: "get n r pathContext st = Some (x, st')"
    show "keeps r0 st st'"
    proof (cases "promise (resolvables st r)")
      case (Some p)
      with g show ?thesis by simp
    next
      case None
      with p0 have "r \<noteq> r0" by auto
      with "1.IH"[OF None] p0 g None show ?thesis by simp
    qed
  qed
next
  case (2 r pathContext st)
  show ?case by simp
next
  case (3 n r pathContext st)
  show ?case
  proof (intro impI allI)
    fix x st'
    assume ne: "r \<noteq> r0" and p0: "promise (resolvables st r0) \<noteq> None"
      and rr: "resolveResolvable (Suc n) r pathContext st = Some (x, st')"
    let ?st1 = "start_resolvable r st"
    from ne have k1: "keeps r0 st ?st1" by (simp add: start_resolvable_other)
    with p0 have p1: "promise (resolvables ?st1 r0) \<noteq> None" by (simp add: keeps_def)
    from rr obtain dps st2 where
      gd: "get_deps n (depResolvables r pathContext ?st1) pathContext ?st1 = Some (dps, st2)"
      and cc: "chain_continuations r dps st2 = (x, st')"
      by (auto split: option.splits prod.splits)
    from "3.IH" p1 gd have k2: "keeps r0 ?st1 st2" by simp
    from chain_continuations_frame[OF cc, of r0] ne have k3: "keeps r0 st2 st'"
      by (simp add: keeps_def calls_def)
    from k1 k2 k3 show "keeps r0 st st'" by (blast intro: keeps_trans)
  qed
next
  case (4 n pathContext st)
  show ?case by simp
next
  case (5 n key r rest pathContext st)
  show ?case
  proof (intro impI allI)
    fix x st'
    assume p0: "promise (resolvables st r0) \<noteq> None"
      and gd: "get_deps n ((key, r) # rest) pathContext st = Some (x, st')"
    from gd obtain p st1 ps where g: "get n r pathContext st = Some (p, st1)"
      and gr: "get_deps n rest pathContext st1 = Some (ps, st')"
      by (auto split: option.splits prod.splits)
    from "5.IH"(1) p0 g have k1: "keeps r0 st st1" by simp
    with p0 have p1: "promise (resolvables st1 r0) \<noteq> None" by (simp add: keeps_def)
    from "5.IH"(2)[OF g refl] p1 gr have "keeps r0 st1 st'" by simp
    with k1 show "keeps r0 st st'" by (blast intro: keeps_trans)
  qed
qed

lemma first_get:
  assumes none: "promise (resolvables st r) = None"
    and g: "get n r pathContext st = Some (c, st1)"
  shows "promise (resolvables st1 r) = Some (pnext (pq st))
         \<and> scheduled r st1 = scheduled r st + 1 \<and> calls r st1 = calls r st"
proof -
  from g none have rr: "resolveResolvable n r pathContext st = Some (c, st1)" by simp
  then obtain m where n: "n = Suc m" by (cases n) auto
  let ?st1 = "start_resolvable r st"
  from rr n obtain dps st2 where
    gd: "get_deps m (depResolvables r pathContext ?st1) pathContext ?st1 = Some (dps, st2)"
    and cc: "chain_continuations r dps st2 = (c, st1)"
    by (auto split: option.splits prod.splits)
  have p1: "promise (resolvables ?st1 r) = Some (pnext (pq st))"
    by (rule start_resolvable_promise)
  with get_deps_keeps[of ?st1 r m "depResolvables r pathContext ?st1" pathContext] gd
  have k2: "keeps r ?st1 st2" by simp
  from chain_continuations_frame[OF cc, of r]
  have f: "resolvables st1 = resolvables st2" "called st1 = called st2"
    "scheduled r st1 = scheduled r st2 + 1" by simp_all
  from k2 p1 f start_resolvable_counts[of r r st] show ?thesis
    by (simp add: keeps_def calls_def)
qed

lemma promise_upd_resolvable_data [simp]:
  "promise (resolvables (upd_resolvable r (\<lambda>x. x\<lparr>data := v\<rparr>) st) r0) = promise (resolvables st r0)"
  by (simp add: upd_resolvable_def)

lemma run_ncallback_counts:
  "promise (resolvables (run_ncallback cb oc st) r0) = promise (resolvables st r0)
   \<and> scheduled r0 (run_ncallback cb oc st) = scheduled r0 st
   \<and> calls r0 (run_ncallback cb oc st) \<le> calls r0 st + (if is_invoke_of r0 cb then 1 else 0)"
proof (cases cb)
  case (NAdopt p)
  then show ?thesis by (simp add: scheduled_upd_pq calls_def) (simp add: scheduled_def)
next
  case (AllPart a key)
  then show ?thesis
    by (cases oc) (simp_all add: Let_def scheduled_upd_pq calls_def, simp_all add: scheduled_def)
next
  case (InvokeThen r a b)
  show ?thesis
  proof (cases oc)
    case (Inl reason)
    with InvokeThen show ?thesis
      by (simp add: scheduled_upd_pq calls_def) (simp add: scheduled_def)
  next
    case (Inr v)
    with InvokeThen show ?thesis
      by (auto simp: Let_def scheduled_upd_pq calls_def scheduled_def
          split: sum.splits outcome.splits)
  qed
next
  case (DataThen c)
  then show ?thesis
    by (cases oc)
       (auto simp: plain_call_receiver_def scheduled_upd_pq calls_def scheduled_def)
qed

lemma scheduled_pop:
  assumes "queue (pq st) = (cb, oc) # rest"
  shows "scheduled r0 (upd_pq (\<lambda>x. x\<lparr>queue := rest\<rparr>) st) + (if is_invoke_of r0 cb then 1 else 0)
           = scheduled r0 st"
  using assms by (simp add: scheduled_upd_pq) (simp add: scheduled_def scheduled_q_def)

lemma ndrain_counts:
  "ndrain n st = Some st' \<Longrightarrow>
     promise (resolvables st' r0) = promise (resolvables st r0)
     \<and> scheduled r0 st' + calls r0 st' \<le> scheduled r0 st + calls r0 st"
proof (induction n arbitrary: st)
  case 0
  then show ?case by (auto split: list.splits)
next
  case (Suc n)
  show ?case
  proof (cases "queue (pq st)")
    case Nil
    with Suc.prems show ?thesis by simp
  next
    case (Cons t rest)
    obtain cb oc where t: "t = (cb, oc)" by (cases t)
    let ?pop = "upd_pq (\<lambda>x. x\<lparr>queue := rest\<rparr>) st"
    let ?st1 = "run_ncallback cb oc ?pop"
    from Suc.prems Cons t have "ndrain n ?st1 = Some st'" by simp
    from Suc.IH[OF this] have ih: "promise (resolvables st' r0) = promise (resolvables ?st1 r0)"
      "scheduled r0 st' + calls r0 st' \<le> scheduled r0 ?st1 + calls r0 ?st1" by simp_all
    from run_ncallback_counts[of cb oc ?pop r0]
    have rc: "promise (resolvables ?st1 r0) = promise (resolvables st r0)"
      "scheduled r0 ?st1 = scheduled r0 ?pop"
      "calls r0 ?st1 \<le> calls r0 st + (if is_invoke_of r0 cb then 1 else 0)"
      by (simp_all add: calls_def)
    from Cons t have "queue (pq st) = (cb, oc) # rest" by simp
    from scheduled_pop[OF this, of r0] ih rc show ?thesis by simp
  qed
qed

lemma getResolvables_from_ran:
  "getResolvables_from st lst om p memo k = Some v \<Longrightarrow>
     memo k = Some v \<or> v \<in> scope_resolvables st p"
proof (induction p arbitrary: memo)
  case Nil
  then show ?case by simp
next
  case (Cons e p)
  from Cons.IH[OF Cons.prems[simplified]]
  show ?case
    by (auto simp: scope_resolvables_def extend_obj_def omit_def ran_def
        split: option.splits if_splits)
qed

lemma getResolvables_ran:
  "getResolvables st p om k = Some v \<Longrightarrow> v \<in> scope_resolvables st p"
  using getResolvables_from_ran[of st "path_last p" om p Map.empty k v]
  by (simp add: getResolvables_def)

lemma pick_ran: "(k, v) \<in> set (pick m ds) \<Longrightarrow> m k = Some v"
  by (induction ds) (auto split: option.splits)

lemma depResolvables_scope:
  "snd ` set (depResolvables r p st) \<subseteq> scope_resolvables st p"
  by (auto simp: depResolvables_def dest!: pick_ran getResolvables_ran)

lemma elements_start [simp]: "elements (start_resolvable r st) = elements st"
  by (simp add: start_resolvable_def q_defer_def upd_resolvable_def)

lemma elements_all_chain [simp]: "elements (all_chain a ps st) = elements st"
  by (induction ps arbitrary: st) (auto simp: upd_pq_def)

lemma elements_chain_continuations:
  "chain_continuations r dps st = (c, st') \<Longrightarrow> elements st' = elements st"
  by (auto simp: chain_continuations_def q_all_def Let_def upd_pq_def split: prod.splits if_splits)

lemma get_elements:
  "\<forall>x st'. get n r pathContext st = Some (x, st') \<longrightarrow> elements st' = elements st"
  and resolveResolvable_elements:
  "\<forall>x st'. resolveResolvable n r pathContext st = Some (x, st') \<longrightarrow> elements st' = elements st"
  and get_deps_elements:
  "\<forall>x st'. get_deps n rs pathContext st = Some (x, st') \<longrightarrow> elements st' = elements st"
proof (induction n r pathContext st and n r pathContext st and n rs pathContext st
       rule: get_resolveResolvable_get_deps.induct)
  case (1 n r pathContext st)
  then show ?case by (cases "promise (resolvables st r)") auto
next
  case (2 r pathContext st)
  show ?case by simp
next
  case (3 n r pathContext st)
  show ?case
  proof (intro allI impI)
    fix x st'
    assume rr: "resolveResolvable (Suc n) r pathContext st = Some (x, st')"
    let ?st1 = "start_resolvable r st"
    from rr obtain dps st2 where
      gd: "get_deps n (depResolvables r pathContext ?st1) pathContext ?st1 = Some (dps, st2)"
      and cc: "chain_continuations r dps st2 = (x, st')"
      by (auto split: option.splits prod.splits)
    from "3.IH" gd have "elements st2 = elements st" by simp
    with elements_chain_continuations[OF cc] show "elements st' = elements st" by simp
  qed
next
  case (4 n pathContext st)
  show ?case by simp
next
  case (5 n key r rest pathContext st)
  show ?case
  proof (intro allI impI)
    fix x st'
    assume gd: "get_deps n ((key, r) # rest) pathContext st = Some (x, st')"
    from gd obtain p st1 ps where g: "get n r pathContext st = Some (p, st1)"
      and gr: "get_deps n rest pathContext st1 = Some (ps, st')"
      by (auto split: option.splits prod.splits)
    from "5.IH"(1) g have "elements st1 = elements st" by simp
    moreover from "5.IH"(2)[OF g refl] gr have "elements st' = elements st1" by simp
    ultimately show "elements st' = elements st" by simp
  qed
qed

lemma scope_cong: "elements st' = elements st \<Longrightarrow> scope_resolvables st' p = scope_resolvables st p"
  by (simp add: scope_resolvables_def)

lemma unrequested_mono:
  assumes fin: "finite (scope_resolvables st p)"
    and el: "elements st' = elements st"
    and keep: "\<forall>r. promise (resolvables st r) \<noteq> None \<longrightarrow> promise (resolvables st' r) \<noteq> None"
  shows "unrequested st' p \<le> unrequested st p"
  unfolding unrequested_def scope_cong[OF el]
  by (rule card_mono) (use fin keep in auto)

lemma unrequested_start:
  assumes fin: "finite (scope_resolvables st p)"
    and r: "r \<in> scope_resolvables st p" and none: "promise (resolvables st r) = None"
  shows "unrequested (start_resolvable r st) p < unrequested st p"
  unfolding unrequested_def scope_cong[OF elements_start]
proof (rule psubset_card_mono)
  let ?A = "{ra \<in> scope_resolvables st p. promise (resolvables (start_resolvable r st) ra) = None}"
  let ?B = "{r \<in> scope_resolvables st p. promise (resolvables st r) = None}"
  show "finite ?B" using fin by simp
  have other: "\<And>r0. r0 \<noteq> r \<Longrightarrow>
      promise (resolvables (start_resolvable r st) r0) = promise (resolvables st r0)"
    by (simp add: start_resolvable_def q_defer_def upd_resolvable_def)
  have own: "promise (resolvables (start_resolvable r st) r) \<noteq> None"
    by (simp add: start_resolvable_promise)
  have sub: "?A \<subseteq> ?B"
  proof
    fix x assume x: "x \<in> ?A"
    with own have "x \<noteq> r" by auto
    with x other[of x] show "x \<in> ?B" by simp
  qed
  from r none have "r \<in> ?B" by simp
  moreover from own have "r \<notin> ?A" by simp
  ultimately show "?A \<subset> ?B" using sub by blast
qed

lemma keeps_all:
  assumes "get n r pathContext st = Some (x, st')"
  shows "\<forall>r0. promise (resolvables st r0) \<noteq> None \<longrightarrow> promise (resolvables st' r0) \<noteq> None"
  using get_keeps[of st _ n r pathContext] assms by (auto simp: keeps_def)

lemma get_enough_fuel:
  "finite (scope_resolvables st pathContext) \<longrightarrow>
     (if r \<in> scope_resolvables st pathContext then unrequested st pathContext \<le> n
      else unrequested st pathContext < n) \<longrightarrow>
     get n r pathContext st \<noteq> None"
  and resolveResolvable_enough_fuel:
  "finite (scope_resolvables st pathContext) \<longrightarrow> promise (resolvables st r) = None \<longrightarrow>
     (if r \<in> scope_resolvables st pathContext then unrequested st pathContext \<le> n
      else unrequested st pathContext < n) \<longrightarrow>
     resolveResolvable n r pathContext st \<noteq> None"
  and get_deps_enough_fuel:
  "finite (scope_resolvables st pathContext) \<longrightarrow>
     snd ` set rs \<subseteq> scope_resolvables st pathContext \<longrightarrow>
     unrequested st pathContext \<le> n \<longrightarrow>
     get_deps n rs pathContext st \<noteq> None"
proof (induction n r pathContext st and n r pathContext st and n rs pathContext st
       rule: get_resolveResolvable_get_deps.induct)
  case (1 n r pathContext st)
  then show ?case by (cases "promise (resolvables st r)") auto
next
  case (2 r pathContext st)
  show ?case
  proof (intro impI)
    assume fin: "finite (scope_resolvables st pathContext)"
      and none: "promise (resolvables st r) = None"
      and fuel: "if r \<in> scope_resolvables st pathContext then unrequested st pathContext \<le> 0
                 else unrequested st pathContext < 0"
    show "resolveResolvable 0 r pathContext st \<noteq> None"
    proof (cases "r \<in> scope_resolvables st pathContext")
      case True
      from unrequested_start[OF fin True none] fuel True show ?thesis by simp
    next
      case False
      with fuel show ?thesis by simp
    qed
  qed
next
  case (3 n r pathContext st)
  show ?case
  proof (intro impI)
    assume fin: "finite (scope_resolvables st pathContext)"
      and none: "promise (resolvables st r) = None"
      and fuel: "if r \<in> scope_resolvables st pathContext then unrequested st pathContext \<le> Suc n
                 else unrequested st pathContext < Suc n"
    let ?st1 = "start_resolvable r st"
    have sc: "scope_resolvables ?st1 pathContext = scope_resolvables st pathContext"
      by (rule scope_cong) simp
    have f1: "unrequested ?st1 pathContext \<le> n"
    proof (cases "r \<in> scope_resolvables st pathContext")
      case True
      from unrequested_start[OF fin True none] fuel True show ?thesis by simp
    next
      case False
      have "unrequested ?st1 pathContext \<le> unrequested st pathContext"
        by (rule unrequested_mono[OF fin])
           (simp_all add: start_resolvable_def q_defer_def upd_resolvable_def)
      with fuel False show ?thesis by simp
    qed
    from "3.IH" fin sc depResolvables_scope[of r pathContext ?st1] f1
    have "get_deps n (depResolvables r pathContext ?st1) pathContext ?st1 \<noteq> None" by simp
    then show "resolveResolvable (Suc n) r pathContext st \<noteq> None"
      by (auto split: option.splits prod.splits)
  qed
next
  case (4 n pathContext st)
  show ?case by simp
next
  case (5 n key r rest pathContext st)
  show ?case
  proof (intro impI)
    assume fin: "finite (scope_resolvables st pathContext)"
      and sub: "snd ` set ((key, r) # rest) \<subseteq> scope_resolvables st pathContext"
      and fuel: "unrequested st pathContext \<le> n"
    from sub have rin: "r \<in> scope_resolvables st pathContext" by simp
    with "5.IH"(1) fin fuel obtain p st1 where g: "get n r pathContext st = Some (p, st1)"
      by auto
    from get_elements[of n r pathContext st] g have el: "elements st1 = elements st" by simp
    have sc: "scope_resolvables st1 pathContext = scope_resolvables st pathContext"
      by (rule scope_cong[OF el])
    from unrequested_mono[OF fin el keeps_all[OF g]] fuel
    have f1: "unrequested st1 pathContext \<le> n" by simp
    from "5.IH"(2)[OF g refl] fin sc sub f1
    have "get_deps n rest pathContext st1 \<noteq> None" by simp
    with g show "get_deps n ((key, r) # rest) pathContext st \<noteq> None"
      by (auto split: option.splits prod.splits)
  qed
qed

text \<open>
  C5: a Resolvable that has not been requested (no promise, nothing scheduled, never
  called) is requested in a path context that declares finitely many Resolvables, with
  fuel beyond the number of those not requested yet.  The \<open>get\<close> returns and has
  stored the deferred's promise that \<open>resolveResolvable\<close> creates; every later \<open>get\<close>,
  in any path context, at once or after the queue has been drained, returns that stored
  promise and changes nothing in the store; and however the queue is drained, the
  function of the Resolvable is called at most once.
\<close>

theorem get_twice_invokes_once:
  assumes fresh: "promise (resolvables st r) = None" "scheduled r st = 0" "calls r st = 0"
    and fin: "finite (scope_resolvables st pathContext)"
    and fuel: "unrequested st pathContext < n"
  shows "\<exists>c1 st1. get n r pathContext st = Some (c1, st1)
         \<and> promise (resolvables st1 r) = Some (pnext (pq st))
         \<and> (\<forall>m pathContext'. get m r pathContext' st1 = Some (pnext (pq st), st1))
         \<and> (\<forall>k st2. ndrain k st1 = Some st2 \<longrightarrow>
               (\<forall>m pathContext'. get m r pathContext' st2 = Some (pnext (pq st), st2))
               \<and> calls r st2 \<le> 1
               \<and> (\<forall>k' st4. ndrain k' st2 = Some st4 \<longrightarrow> calls r st4 \<le> 1))"
proof -
  from fuel have "if r \<in> scope_resolvables st pathContext then unrequested st pathContext \<le> n
                  else unrequested st pathContext < n" by simp
  with get_enough_fuel[of st pathContext r n] fin
  have "get n r pathContext st \<noteq> None" by blast
  then obtain c1 st1 where g1: "get n r pathContext st = Some (c1, st1)"
    by (cases "get n r pathContext st") (auto simp del: get.simps)
  from first_get[OF fresh(1) g1] fresh have a: "promise (resolvables st1 r) = Some (pnext (pq st))"
    "scheduled r st1 + calls r st1 = 1" by simp_all
  from a(1) have a': "\<forall>m pathContext'. get m r pathContext' st1 = Some (pnext (pq st), st1)"
    by simp
  have d: "\<forall>k st2. ndrain k st1 = Some st2 \<longrightarrow>
               (\<forall>m pathContext'. get m r pathContext' st2 = Some (pnext (pq st), st2))
               \<and> calls r st2 \<le> 1
               \<and> (\<forall>k' st4. ndrain k' st2 = Some st4 \<longrightarrow> calls r st4 \<le> 1)"
  proof (intro allI impI)
    fix k st2 assume d1: "ndrain k st1 = Some st2"
    from ndrain_counts[OF d1, of r] a have b: "promise (resolvables st2 r) = Some (pnext (pq st))"
      "scheduled r st2 + calls r st2 \<le> 1" by simp_all
    from b(1) have c: "\<forall>m pathContext'. get m r pathContext' st2 = Some (pnext (pq st), st2)"
      by simp
    have e: "\<forall>k' st4. ndrain k' st2 = Some st4 \<longrightarrow> calls r st4 \<le> 1"
    proof (intro allI impI)
      fix k' st4 assume "ndrain k' st2 = Some st4"
      from ndrain_counts[OF this, of r] b show "calls r st4 \<le> 1" by simp
    qed
    from b(2) c e show "(\<forall>m pathContext'. get m r pathContext' st2 = Some (pnext (pq st), st2))
               \<and> calls r st2 \<le> 1
               \<and> (\<forall>k' st4. ndrain k' st2 = Some st4 \<longrightarrow> calls r st4 \<le> 1)" by simp
  qed
  from g1 a(1) a' d show ?thesis by blast
qed

lemma example_scope: "scope_resolvables (example_unresolved True) [0] = {0}"
  by (simp add: scope_resolvables_def example_unresolved_def new_element_def new_resolvable_def
      nstate_init_def)

lemma unrequested_le_card:
  "finite (scope_resolvables st p) \<Longrightarrow> unrequested st p \<le> card (scope_resolvables st p)"
  unfolding unrequested_def by (rule card_mono) auto

lemma example_get_facts:
  "promise (resolvables (example_unresolved True) 0) = None"
  "scheduled 0 (example_unresolved True) = 0"
  "calls 0 (example_unresolved True) = 0"
  "ndrain 100 (snd example_get1) \<noteq> None"
  "calls 0 example_drained1 = 1"
  "pnext (pq (example_unresolved True)) = 0"
  by code_simp+

text \<open>
  The theorem at the path of the single Resolvable \<open>a\<close>: the first \<open>get\<close> returns, a
  second one (without fuel) returns the stored promise, before and after the queue is
  drained, and the function was called once.
\<close>

theorem get_twice_invokes_once_witness:
  "promise (resolvables (example_unresolved True) 0) = None
   \<and> scheduled 0 (example_unresolved True) = 0 \<and> calls 0 (example_unresolved True) = 0
   \<and> finite (scope_resolvables (example_unresolved True) [0])
   \<and> unrequested (example_unresolved True) [0] < 2
   \<and> get 2 0 [0] (example_unresolved True) = Some example_get1
   \<and> promise (resolvables (snd example_get1) 0) = Some 0
   \<and> get 0 0 [0] (snd example_get1) = Some (0, snd example_get1)
   \<and> ndrain 100 (snd example_get1) = Some example_drained1
   \<and> get 0 0 [0] example_drained1 = Some (0, example_drained1)
   \<and> calls 0 example_drained1 = 1"
proof -
  have fin: "finite (scope_resolvables (example_unresolved True) [0])"
    by (simp add: example_scope)
  from unrequested_le_card[OF fin] have fuel: "unrequested (example_unresolved True) [0] < 2"
    by (simp add: example_scope)
  from get_twice_invokes_once[OF example_get_facts(1-3) fin fuel]
  obtain c1 st1 where g1: "get 2 0 [0] (example_unresolved True) = Some (c1, st1)"
    and p1: "promise (resolvables st1 0) = Some (pnext (pq (example_unresolved True)))"
    and m1: "\<forall>m pathContext'. get m 0 pathContext' st1
               = Some (pnext (pq (example_unresolved True)), st1)"
    and dr: "\<forall>k st2. ndrain k st1 = Some st2 \<longrightarrow>
               (\<forall>m pathContext'. get m 0 pathContext' st2
                  = Some (pnext (pq (example_unresolved True)), st2))
               \<and> calls 0 st2 \<le> 1
               \<and> (\<forall>k' st4. ndrain k' st2 = Some st4 \<longrightarrow> calls 0 st4 \<le> 1)"
    by blast
  from g1 have e1: "example_get1 = (c1, st1)" by (simp add: example_get1_def)
  have d1: "ndrain 100 (snd example_get1) = Some example_drained1"
    using example_get_facts(4) unfolding example_drained1_def
    by (rule option.collapse[symmetric])
  from d1[unfolded e1 snd_conv] have d1': "ndrain 100 st1 = Some example_drained1" .
  from dr[rule_format, OF d1'] have g2: "get 0 0 [0] example_drained1
      = Some (pnext (pq (example_unresolved True)), example_drained1)" by blast
  from m1[rule_format, of 0 "[0]"] have g1': "get 0 0 [0] (snd example_get1)
      = Some (pnext (pq (example_unresolved True)), snd example_get1)"
    unfolding e1 snd_conv .
  from g1 e1 have g1'': "get 2 0 [0] (example_unresolved True) = Some example_get1" by metis
  from p1 e1 have p1': "promise (resolvables (snd example_get1) 0)
      = Some (pnext (pq (example_unresolved True)))" by (metis snd_conv)
  show ?thesis
    unfolding g1'' p1' g1' d1 g2 example_get_facts
    using fin fuel by simp
qed

section \<open>Properties of plan execution over all runs\<close>

subsection \<open>An entry waits for the promises registered under its parameters\<close>

lemma upd_q_simps [simp]:
  "resolutions (upd_q f st) = resolutions st"
  "invoked (upd_q f st) = invoked st"
  "services (upd_q f st) = services st"
  "rnext (upd_q f st) = rnext st"
  "q (upd_q f st) = f (q st)"
  by (simp_all add: upd_q_def)

lemma upd_res_simps [simp]:
  "resolutions (upd_res r f st) r = f (resolutions st r)"
  "r' \<noteq> r \<Longrightarrow> resolutions (upd_res r f st) r' = resolutions st r'"
  "invoked (upd_res r f st) = invoked st"
  "services (upd_res r f st) = services st"
  "rnext (upd_res r f st) = rnext st"
  "q (upd_res r f st) = q st"
  by (simp_all add: upd_res_def)

lemma injector_invoke_frame:
  assumes "injector_invoke r' key f ps slf vals st = (oc, st1)"
  shows "resolutions st1 = resolutions st \<and> q st1 = q st
         \<and> (invoked st1 = invoked st \<or> (\<exists>args. invoked st1 = invoked st @ [(r', key, args)]))"
  using assms
  by (auto simp: injector_invoke_def split: plan_value.splits option.splits sum.splits)

lemma same_names_refl [simp]: "same_names st st"
  by (simp add: same_names_def)

lemma same_names_trans: "same_names a b \<Longrightarrow> same_names b c \<Longrightarrow> same_names a c"
  by (simp add: same_names_def)

lemma same_names_upd_q [simp]: "same_names st (upd_q f st)"
  by (simp add: same_names_def)

lemma same_names_fail: "same_names st (fail r reason st)"
  by (simp add: same_names_def fail_def upd_res_def)

lemma same_names_onfailure: "same_names st (onfailure r key reason st)"
  using same_names_fail[of "upd_q (q_reject (invocation c) reason) st" r reason for c]
  by (auto simp: onfailure_def same_names_def split: option.splits)

lemma same_names_proceed: "same_names st (proceed r key st)"
proof (cases "isDefined (failure (resolutions st r))")
  case True
  then show ?thesis by (simp add: proceed_def)
next
  case False
  show ?thesis
  proof (cases "closures (resolutions st r) key")
    case None
    with False show ?thesis by (simp add: proceed_def)
  next
    case (Some c)
    obtain oc st1 where ii: "injector_invoke r key (invocable c) (params c)
        (self (resolutions st r)) (values (resolutions st r)) st = (oc, st1)"
      by (cases "injector_invoke r key (invocable c) (params c)
        (self (resolutions st r)) (values (resolutions st r)) st")
    from injector_invoke_frame[OF ii] have s1: "same_names st st1" by (simp add: same_names_def)
    have "same_names st1 (onfailure r key e st1)" for e by (rule same_names_onfailure)
    with s1 have a: "same_names st (onfailure r key e st1)" for e
      by (blast intro: same_names_trans)
    from s1 have b: "same_names st (upd_q g (upd_q h st1))" for g h
      by (simp add: same_names_def)
    from False Some ii a b show ?thesis
      by (cases oc) (simp_all add: proceed_def)
  qed
qed

lemma chained_then: "chained (q_then p cb qs) p cb"
  by (auto simp: chained_def q_then_def split: pstate.splits)

lemma chained_then_keep: "chained qs p cb \<Longrightarrow> chained (q_then p' cb' qs) p cb"
  by (auto simp: chained_def q_then_def split: pstate.splits)

lemma wait_params_effect:
  "invoked (wait_params r key ds st) = invoked st
   \<and> same_names st (wait_params r key ds st)
   \<and> closures (resolutions (wait_params r key ds st) r) key
       = map_option (\<lambda>c. c\<lparr>waitParams := waitParams c
             + int (length (filter (\<lambda>d. promises (resolutions st r) d \<noteq> None
                                        \<and> locals (resolutions st r) d = None) ds))\<rparr>)
           (closures (resolutions st r) key)
   \<and> (\<forall>p cb. chained (q st) p cb \<longrightarrow> chained (q (wait_params r key ds st)) p cb)
   \<and> (\<forall>dep p. dep \<in> set ds \<and> promises (resolutions st r) dep = Some p
         \<and> locals (resolutions st r) dep = None
         \<longrightarrow> chained (q (wait_params r key ds st)) p (ParamThen r key dep))"
proof (induction ds arbitrary: st)
  case Nil
  show ?case by (cases "closures (resolutions st r) key") simp_all
next
  case (Cons d ds)
  show ?case
  proof (cases "promises (resolutions st r) d \<noteq> None \<and> locals (resolutions st r) d = None")
    case False
    with Cons[of st] show ?thesis by auto
  next
    case True
    let ?st1 = "upd_q (q_then (the (promises (resolutions st r) d)) (ParamThen r key d))
                (upd_res r (\<lambda>x. x\<lparr>closures := (closures x)(key :=
                    map_option (\<lambda>c. c\<lparr>waitParams := waitParams c + 1\<rparr>) (closures x key))\<rparr>) st)"
    have w: "wait_params r key (d # ds) st = wait_params r key ds ?st1" using True by simp
    have n1: "same_names st ?st1" by (simp add: same_names_def upd_res_def)
    then have pl: "promises (resolutions ?st1 r) = promises (resolutions st r)"
      "locals (resolutions ?st1 r) = locals (resolutions st r)" by (simp_all add: same_names_def)
    have c1: "closures (resolutions ?st1 r) key
       = map_option (\<lambda>c. c\<lparr>waitParams := waitParams c + 1\<rparr>) (closures (resolutions st r) key)"
      by simp
    have ch1: "\<forall>p cb. chained (q st) p cb \<longrightarrow> chained (q ?st1) p cb"
      by (simp add: chained_then_keep)
    have chd: "chained (q ?st1) (the (promises (resolutions st r) d)) (ParamThen r key d)"
      by (simp add: chained_then)
    note ih = Cons[of ?st1]
    from ih have i1: "invoked (wait_params r key ds ?st1) = invoked st" by simp
    from ih n1 have i2: "same_names st (wait_params r key ds ?st1)"
      by (blast intro: same_names_trans)
    from ih c1 pl True have i3: "closures (resolutions (wait_params r key ds ?st1) r) key
       = map_option (\<lambda>c. c\<lparr>waitParams := waitParams c
             + int (length (filter (\<lambda>d. promises (resolutions st r) d \<noteq> None
                                        \<and> locals (resolutions st r) d = None) (d # ds)))\<rparr>)
           (closures (resolutions st r) key)"
      by (cases "closures (resolutions st r) key") (simp_all add: algebra_simps)
    from ih ch1 have i4: "\<forall>p cb. chained (q st) p cb
          \<longrightarrow> chained (q (wait_params r key ds ?st1)) p cb" by blast
    have i5: "\<forall>dep p. dep \<in> set (d # ds) \<and> promises (resolutions st r) dep = Some p
         \<and> locals (resolutions st r) dep = None
         \<longrightarrow> chained (q (wait_params r key ds ?st1)) p (ParamThen r key dep)"
    proof (intro allI impI)
      fix dep p
      assume a: "dep \<in> set (d # ds) \<and> promises (resolutions st r) dep = Some p
         \<and> locals (resolutions st r) dep = None"
      show "chained (q (wait_params r key ds ?st1)) p (ParamThen r key dep)"
      proof (cases "dep \<in> set ds")
        case True
        with a ih pl show ?thesis by simp
      next
        case False
        with a have "dep = d" by simp
        with a chd have "chained (q ?st1) p (ParamThen r key dep)" by simp
        with ih show ?thesis by blast
      qed
    qed
    from i1 i2 i3 i4 i5 show ?thesis unfolding w by blast
  qed
qed

lemma promises_resolve_done:
  "promises (resolutions (resolve_done r' st) r0) = promises (resolutions st r0)
   \<and> parent (resolutions (resolve_done r' st) r0) = parent (resolutions st r0)"
  by (cases "r' = r0")
     (auto simp: resolve_done_def Let_def upd_res_def split: option.splits)

lemma promises_inherit:
  "promises (resolutions (inherit r ks st) r)
     = extend_obj (promises (resolutions st r)) (parent_promises st (parent (resolutions st r)))"
proof -
  let ?s1 = "inherit_values r ks st"
  have a: "parent (resolutions ?s1 r) = parent (resolutions st r)"
    "promises (resolutions ?s1 r) = promises (resolutions st r)"
    "parent_promises ?s1 pp = parent_promises st pp" for pp
    by (auto simp: inherit_values_def parent_promises_def upd_res_def split: option.splits)
  let ?s2 = "inherit_promises r ?s1"
  from a have b: "promises (resolutions ?s2 r)
     = extend_obj (promises (resolutions st r)) (parent_promises st (parent (resolutions st r)))"
    by (simp add: inherit_promises_def)
  have w: "promises (resolutions (wait_for_parent r ks s) r) = promises (resolutions s r)" for s
    by (auto simp: wait_for_parent_def Let_def upd_res_def split: option.splits)
  have m: "promises (resolutions (merge_or_wait r ks s) r) = promises (resolutions s r)" for s
    by (auto simp: merge_or_wait_def w promises_resolve_done split: option.splits)
  from m[of ?s2] b show ?thesis by (simp add: inherit_def)
qed

subsection \<open>The local is kept by every step\<close>

lemma cbs_respect_then:
  "cbs_respect r x qs \<Longrightarrow> cb_respects r x cb \<Longrightarrow> cbs_respect r x (q_then p cb qs)"
  by (auto simp: cbs_respect_def q_then_def split: pstate.splits)

lemma cbs_respect_settle: "cbs_respect r x qs \<Longrightarrow> cbs_respect r x (q_settle p oc qs)"
  by (auto simp: cbs_respect_def q_settle_def)

lemma cbs_respect_resolve: "cbs_respect r x qs \<Longrightarrow> cbs_respect r x (q_resolve p v qs)"
  by (simp add: q_resolve_def cbs_respect_settle)

lemma cbs_respect_reject: "cbs_respect r x qs \<Longrightarrow> cbs_respect r x (q_reject p v qs)"
  by (simp add: q_reject_def cbs_respect_settle)

lemma cbs_respect_adopt: "cbs_respect r x qs \<Longrightarrow> cbs_respect r x (q_adopt p oc qs)"
  by (simp add: q_adopt_def cbs_respect_settle split: pstate.splits)

lemma cbs_respect_fields:
  "cbs_respect r x (qs\<lparr>pstates := ps\<rparr>) = cbs_respect r x qs"
  "cbs_respect r x (qs\<lparr>pnext := k\<rparr>) = cbs_respect r x qs"
  by (simp_all add: cbs_respect_def)

lemma cbs_respect_resolve_with:
  "cbs_respect r x qs \<Longrightarrow> cbs_respect r x (q_resolve_with Adopt p oc qs)"
  by (cases oc)
     (simp_all add: cbs_respect_resolve q_resolve_promise_def cbs_respect_then cbs_respect_fields)

lemma cbs_respect_defer: "cbs_respect r x qs \<Longrightarrow> cbs_respect r x (snd (q_defer qs))"
  by (simp add: q_defer_def cbs_respect_def)

lemma cbs_respect_pop:
  "cbs_respect r x qs \<Longrightarrow> queue qs = t # rest \<Longrightarrow>
     cb_respects r x (fst t) \<and> cbs_respect r x (qs\<lparr>queue := rest\<rparr>)"
  by (simp add: cbs_respect_def)

lemma local_kept_upd_q:
  "local_kept r x v st \<Longrightarrow> cbs_respect r x (f (q st)) \<Longrightarrow> local_kept r x v (upd_q f st)"
  by (simp add: local_kept_def)

lemma local_kept_fail: "local_kept r x v st \<Longrightarrow> local_kept r x v (fail r' reason st)"
  by (cases "r' = r") (simp_all add: local_kept_def fail_def cbs_respect_reject)

lemma merge_keeps: "m x = Some v \<Longrightarrow> merge m m' x = Some v"
  by (simp add: merge_def)

lemma local_kept_resolve_done: "local_kept r x v st \<Longrightarrow> local_kept r x v (resolve_done r' st)"
  by (cases "r' = r")
     (auto simp: local_kept_def resolve_done_def Let_def cbs_respect_resolve merge_keeps
           split: option.splits)

lemma local_kept_onfailure:
  "local_kept r x v st \<Longrightarrow> local_kept r x v (onfailure r' key reason st)"
proof (cases "closures (resolutions st r') key")
  case None
  then show "local_kept r x v st \<Longrightarrow> ?thesis" by (simp add: onfailure_def)
next
  case (Some c)
  assume "local_kept r x v st"
  then have "local_kept r x v (upd_q (q_reject (invocation c) reason) st)"
    by (simp add: local_kept_def cbs_respect_reject)
  then show ?thesis using Some by (simp add: onfailure_def local_kept_fail)
qed

lemma local_kept_injector_invoke:
  assumes "local_kept r x v st" "r' \<noteq> r \<or> key \<noteq> x"
    and "injector_invoke r' key f ps slf vals st = (oc, st1)"
  shows "local_kept r x v st1"
  using injector_invoke_frame[OF assms(3)] assms(1,2)
  by (auto simp: local_kept_def)

lemma local_kept_proceed: "local_kept r x v st \<Longrightarrow> local_kept r x v (proceed r' key st)"
proof -
  assume lk: "local_kept r x v st"
  show ?thesis
  proof (cases "closures (resolutions st r') key")
    case None
    then show ?thesis using lk by (simp add: proceed_def)
  next
    case (Some c)
    with lk have ne: "r' \<noteq> r \<or> key \<noteq> x" by (auto simp: local_kept_def)
    obtain oc st1 where ii: "injector_invoke r' key (invocable c) (params c)
        (self (resolutions st r')) (values (resolutions st r')) st = (oc, st1)"
      by (cases "injector_invoke r' key (invocable c) (params c)
        (self (resolutions st r')) (values (resolutions st r')) st")
    from local_kept_injector_invoke[OF lk ne ii] have lk1: "local_kept r x v st1" .
    from ne have cr: "cb_respects r x (InvocationThen r' key)" by auto
    from lk1 have "cbs_respect r x (q st1)" by (simp add: local_kept_def)
    then have "cbs_respect r x (q_then (invocation c) (InvocationThen r' key)
                 (q_resolve_with Adopt (invocation c) oc (q st1)))"
      by (intro cbs_respect_then cbs_respect_resolve_with cr)
    with lk1 have lk2: "local_kept r x v
       (upd_q (q_then (invocation c) (InvocationThen r' key))
           (upd_q (q_resolve_with Adopt (invocation c) oc) st1))"
      by (simp add: local_kept_def)
    show ?thesis
    proof (cases "isDefined (failure (resolutions st r'))")
      case True
      then show ?thesis using lk by (simp add: proceed_def)
    next
      case False
      show ?thesis
      proof (cases oc)
        case (Throw e)
        with False Some ii lk1 show ?thesis by (simp add: proceed_def local_kept_onfailure)
      next
        case (Return w)
        with False Some ii lk2 show ?thesis by (simp add: proceed_def)
      next
        case (ReturnPromise w)
        with False Some ii lk2 show ?thesis by (simp add: proceed_def)
      qed
    qed
  qed
qed

lemma local_kept_run_callback:
  assumes lk: "local_kept r x v st" and cr: "cb_respects r x cb"
  shows "local_kept r x v (run_callback cb oc st)"
proof (cases cb)
  case (Adopt p)
  with lk show ?thesis by (simp add: local_kept_def cbs_respect_adopt)
next
  case (ParentThen r')
  with lk show ?thesis by (cases oc) (simp_all add: local_kept_fail local_kept_resolve_done)
next
  case (ParamThen r' key dep)
  show ?thesis
  proof (cases oc)
    case (Inl reason)
    with ParamThen lk show ?thesis by (simp add: local_kept_onfailure)
  next
    case (Inr result)
    let ?st1 = "upd_res r' (\<lambda>x. x\<lparr>values := (values x)(dep \<mapsto> result),
                 closures := (closures x)(key :=
                    map_option (\<lambda>c. c\<lparr>waitParams := waitParams c - 1\<rparr>) (closures x key))\<rparr>) st"
    from lk cr ParamThen have "local_kept r x v ?st1"
      by (cases "r' = r") (auto simp: local_kept_def)
    with ParamThen Inr show ?thesis by (simp add: Let_def local_kept_proceed)
  qed
next
  case (InvocationThen r' key)
  show ?thesis
  proof (cases oc)
    case (Inl reason)
    with InvocationThen lk show ?thesis by (simp add: local_kept_onfailure)
  next
    case (Inr result)
    from lk cr InvocationThen
    have "local_kept r x v (upd_res r' (\<lambda>x. x\<lparr>values := (values x)(key \<mapsto> result)\<rparr>) st)"
      by (cases "r' = r") (auto simp: local_kept_def)
    with InvocationThen Inr show ?thesis by (simp add: local_kept_resolve_done)
  qed
qed

lemma local_kept_drain: "local_kept r x v st \<Longrightarrow> drain n st = Some st' \<Longrightarrow> local_kept r x v st'"
proof (induction n arbitrary: st)
  case 0
  then show ?case by (auto split: list.splits)
next
  case (Suc n)
  show ?case
  proof (cases "queue (q st)")
    case Nil
    with Suc.prems show ?thesis by simp
  next
    case (Cons t rest)
    obtain cb oc where t: "t = (cb, oc)" by (cases t)
    from Suc.prems(1) have "cbs_respect r x (q st)" by (simp add: local_kept_def)
    from cbs_respect_pop[OF this Cons] t
    have cr: "cb_respects r x cb" and rest: "cbs_respect r x ((q st)\<lparr>queue := rest\<rparr>)" by simp_all
    from Suc.prems(1) rest have "local_kept r x v (upd_q (\<lambda>x. x\<lparr>queue := rest\<rparr>) st)"
      by (simp add: local_kept_def)
    from local_kept_run_callback[OF this cr]
    have "local_kept r x v (run_callback cb oc (upd_q (\<lambda>x. x\<lparr>queue := rest\<rparr>) st))" .
    moreover from Suc.prems(2) Cons t
    have "drain n (run_callback cb oc (upd_q (\<lambda>x. x\<lparr>queue := rest\<rparr>) st)) = Some st'" by simp
    ultimately show ?thesis by (rule Suc.IH)
  qed
qed

lemma local_kept_run_events:
  "local_kept r x v st \<Longrightarrow> run_events n evs st = Some st' \<Longrightarrow> local_kept r x v st'"
proof (induction evs arbitrary: st)
  case Nil
  then show ?case by (simp add: local_kept_drain del: drain.simps)
next
  case (Cons ev evs)
  obtain p oc where ev: "ev = (p, oc)" by (cases ev)
  from Cons.prems(2) ev obtain st1 where d: "drain n st = Some st1"
    and re: "run_events n evs (if pstates (q st1) p = Pending then upd_q (q_settle p oc) st1 else st1)
               = Some st'"
    by (auto simp del: drain.simps split: option.splits)
  from local_kept_drain[OF Cons.prems(1) d] have lk1: "local_kept r x v st1" .
  then have "local_kept r x v (if pstates (q st1) p = Pending then upd_q (q_settle p oc) st1 else st1)"
    by (simp add: local_kept_def cbs_respect_settle)
  from Cons.IH[OF this re] show ?case .
qed

lemma local_kept_wait_params:
  "local_kept r x v st \<Longrightarrow> r' \<noteq> r \<or> key \<noteq> x \<Longrightarrow>
     local_kept r x v (wait_params r' key ds st)"
proof (induction ds arbitrary: st)
  case Nil
  then show ?case by simp
next
  case (Cons dep ds)
  show ?case
  proof (cases "promises (resolutions st r') dep \<noteq> None \<and> locals (resolutions st r') dep = None")
    case False
    with Cons show ?thesis by auto
  next
    case True
    let ?st1 = "upd_q (q_then (the (promises (resolutions st r') dep)) (ParamThen r' key dep))
                (upd_res r' (\<lambda>x. x\<lparr>closures := (closures x)(key :=
                    map_option (\<lambda>c. c\<lparr>waitParams := waitParams c + 1\<rparr>) (closures x key))\<rparr>) st)"
    from True Cons.prems have "r' \<noteq> r \<or> (key \<noteq> x \<and> dep \<noteq> x)"
      by (auto simp: local_kept_def)
    then have cr: "cb_respects r x (ParamThen r' key dep)" by simp
    from Cons.prems cr have "local_kept r x v ?st1"
      by (cases "r' = r") (auto simp: local_kept_def cbs_respect_then)
    from Cons.IH[OF this Cons.prems(2)] True show ?thesis by simp
  qed
qed

lemma local_kept_invoke_entry:
  assumes lk: "local_kept r x v st" and ne: "r' \<noteq> r \<or> key \<noteq> x"
  shows "local_kept r x v (invoke_entry r' key f ps st)"
proof -
  from lk have "cbs_respect r x (snd (q_defer (q st)))"
    by (simp add: local_kept_def cbs_respect_defer)
  with lk ne have "local_kept r x v (new_invocation r' key f ps st)"
    by (cases "r' = r") (auto simp: local_kept_def new_invocation_def)
  then have "local_kept r x v (wait_params r' key ps (new_invocation r' key f ps st))"
    using ne by (rule local_kept_wait_params)
  then have "local_kept r x v
      (proceed_if_ready r' key (wait_params r' key ps (new_invocation r' key f ps st)))"
    by (simp add: proceed_if_ready_def local_kept_proceed)
  then show ?thesis
    unfolding invoke_entry_def publish_def
    by (cases "r' = r") (auto simp: local_kept_def split: option.splits)
qed

lemma local_kept_process_plan:
  "local_kept r x v st \<Longrightarrow> local_kept r x v (process_plan r' pl st)"
proof (induction pl arbitrary: st)
  case Nil
  then show ?case by simp
next
  case (Cons e pl)
  obtain key f ps where e: "e = (key, f, ps)" by (cases e)
  show ?case
  proof (cases "locals (resolutions st r') key \<noteq> None")
    case True
    from Cons.IH[OF local_kept_resolve_done[OF Cons.prems]] True e show ?thesis by simp
  next
    case False
    with Cons.prems have "r' \<noteq> r \<or> key \<noteq> x" by (auto simp: local_kept_def)
    from Cons.IH[OF local_kept_invoke_entry[OF Cons.prems this]] False e show ?thesis by simp
  qed
qed

lemma local_kept_upd_values_merge:
  "local_kept r x v st \<Longrightarrow>
     local_kept r x v (upd_res r' (\<lambda>y. y\<lparr>values := merge (values y) m\<rparr>) st)"
  by (cases "r' = r") (auto simp: local_kept_def merge_keeps)

lemma local_kept_inherit: "local_kept r x v st \<Longrightarrow> local_kept r x v (inherit r' ks st)"
proof -
  assume lk: "local_kept r x v st"
  then have lk1: "local_kept r x v (inherit_values r' ks st)"
    by (auto simp: inherit_values_def local_kept_upd_values_merge split: option.splits)
  then have lk2: "local_kept r x v (inherit_promises r' (inherit_values r' ks st))"
    by (cases "r' = r") (auto simp: local_kept_def inherit_promises_def)
  have w: "\<And>s. local_kept r x v s \<Longrightarrow> local_kept r x v (wait_for_parent r' ks s)"
  proof -
    fix s assume a: "local_kept r x v s"
    define s3 where "s3 = (case parent_inheritedValues s (parent (resolutions s r')) of
                   None \<Rightarrow> s
                 | Some iv \<Rightarrow>
                     upd_res r' (\<lambda>x. x\<lparr>inheritedValues := Some (omit iv ks)\<rparr>) s)"
    from a have a3: "local_kept r x v s3"
      by (cases "r' = r") (auto simp: local_kept_def s3_def split: option.splits)
    then have "\<And>i. local_kept r x v
        (upd_q (q_then (resolution_promise (resolutions s3 i)) (ParentThen r')) s3)"
      by (simp add: local_kept_def cbs_respect_then)
    with a3 show "local_kept r x v (wait_for_parent r' ks s)"
      by (simp add: wait_for_parent_def Let_def s3_def[symmetric] split: option.splits)
  qed
  have m: "\<And>s. local_kept r x v s \<Longrightarrow> local_kept r x v (merge_or_wait r' ks s)"
  proof -
    fix s assume a: "local_kept r x v s"
    have "\<And>pv. local_kept r x v (upd_res r' (\<lambda>x. x\<lparr>values := merge (values x) (omit pv ks),
                                  merged := True,
                                  inheritedValues := Some (omit pv ks)\<rparr>) s)"
      using a by (cases "r' = r") (auto simp: local_kept_def merge_keeps)
    with a w show "local_kept r x v (merge_or_wait r' ks s)"
      by (simp add: merge_or_wait_def local_kept_resolve_done split: option.splits)
  qed
  from m[OF lk2] show ?thesis by (simp add: inherit_def)
qed

text \<open>
  C9: a call with a local \<open>x\<close> in a store where the new resolution is fresh, followed
  by any sequence of outside events with the queue drained in between: the value under
  \<open>x\<close> in the resolution's values (the object the promise is resolved with) is the
  local's value throughout, and the invocable \<open>x\<close> is never called.
\<close>

theorem local_shadows_invocable:
  assumes fresh: "fresh_store st"
    and call: "resolve_with_plan pl ks (AObj l) a_parent a_self st = Inr (r, st1)"
    and local: "l x = Some v"
    and run: "run_events n evs st1 = Some st2"
  shows "values (resolutions st2 r) x = Some v \<and> (\<forall>args. (r, x, args) \<notin> set (invoked st2))"
proof -
  obtain p s where args: "resolve_args (AObj l) a_parent a_self = Inr (l, p, s)"
    using call
    by (auto simp: resolve_with_plan_def resolve_args_def shift_args_def
        split: if_splits sum.splits)
  define st0 where "st0 = st\<lparr>q := snd (q_defer (q st)), rnext := Suc (rnext st),
                        resolutions := (resolutions st)(rnext st :=
                          \<lparr>locals = l, parent = p, self = s,
                           resolution_promise = fst (q_defer (q st)),
                           promises = Map.empty, values = extend_obj Map.empty l,
                           wait = 1 + int (length pl), merged = False, failure = VUndefined,
                           inheritedValues = None, published = False,
                           closures = Map.empty\<rparr>)\<rparr>"
  from call args have r: "r = rnext st"
    and st1: "st1 = (if isDefined (parent_failure st0 p) then fail r (parent_failure st0 p) st0
                     else process_plan r pl (inherit r ks st0))"
    by (auto simp: resolve_with_plan_def Let_def st0_def split: prod.splits if_splits)
  from fresh local have "local_kept r x v st0"
    by (simp add: local_kept_def st0_def r fresh_store_def extend_obj_def cbs_respect_defer)
  then have "local_kept r x v st1"
    by (simp add: st1 local_kept_fail local_kept_process_plan local_kept_inherit)
  from local_kept_run_events[OF this run] show ?thesis by (simp add: local_kept_def)
qed

lemma example_locals_facts:
  "\<not> isl example_locals_call"
  "fst (projr example_locals_call) = 0"
  "run_events 100 [] (snd (projr example_locals_call)) \<noteq> None"
  "invoked example_locals_run = [(0, ''y'', [VNum 5])]"
  "values (resolutions example_locals_run 0) ''y'' = Some (VNum 6)"
  "pstates (q example_locals_run) (resolution_promise (resolutions example_locals_run 0))
     = Fulfilled (VValuesOf 0)"
  by code_simp+

lemma fresh_store_init: "fresh_store (lstate_init svc)"
  by (simp add: fresh_store_def lstate_init_def q_empty_def cbs_respect_def)

text \<open>
  The theorem at the call with the local \<open>x = 5\<close> and the invocables \<open>x\<close> and \<open>y\<close>:
  the resolution is fulfilled, \<open>x\<close> is 5, \<open>y\<close> was computed from it, and only \<open>y\<close> was
  called.
\<close>

theorem local_shadows_invocable_witness:
  "fresh_store (lstate_init Map.empty)
   \<and> resolve_with_plan
       [(''x'', Invoke (returns (VNum 7)), []), (''y'', Invoke increment, [''x''])]
       [''x'', ''y''] (AObj [''x'' \<mapsto> VNum 5]) AUndefined AUndefined (lstate_init Map.empty)
       = Inr (0, snd (projr example_locals_call))
   \<and> [''x'' \<mapsto> VNum 5] ''x'' = Some (VNum 5)
   \<and> run_events 100 [] (snd (projr example_locals_call)) = Some example_locals_run
   \<and> values (resolutions example_locals_run 0) ''x'' = Some (VNum 5)
   \<and> (\<forall>args. (0, ''x'', args) \<notin> set (invoked example_locals_run))
   \<and> invoked example_locals_run = [(0, ''y'', [VNum 5])]
   \<and> values (resolutions example_locals_run 0) ''y'' = Some (VNum 6)
   \<and> pstates (q example_locals_run) (resolution_promise (resolutions example_locals_run 0))
       = Fulfilled (VValuesOf 0)"
proof -
  have "example_locals_call = Inr (projr example_locals_call)"
    using example_locals_facts(1) by simp
  then have "example_locals_call = Inr (fst (projr example_locals_call), snd (projr example_locals_call))"
    by simp
  then have call: "resolve_with_plan
       [(''x'', Invoke (returns (VNum 7)), []), (''y'', Invoke increment, [''x''])]
       [''x'', ''y''] (AObj [''x'' \<mapsto> VNum 5]) AUndefined AUndefined (lstate_init Map.empty)
       = Inr (0, snd (projr example_locals_call))"
    unfolding example_locals_facts(2) by (simp add: example_locals_call_def)
  have run: "run_events 100 [] (snd (projr example_locals_call)) = Some example_locals_run"
    using example_locals_facts(3) unfolding example_locals_run_def
    by (rule option.collapse[symmetric])
  have loc: "[''x'' \<mapsto> VNum 5] ''x'' = Some (VNum 5)" by simp
  from local_shadows_invocable[OF fresh_store_init call loc run]
  have "values (resolutions example_locals_run 0) ''x'' = Some (VNum 5)
        \<and> (\<forall>args. (0, ''x'', args) \<notin> set (invoked example_locals_run))" .
  with fresh_store_init call loc run example_locals_facts(4-6) show ?thesis by blast
qed

subsection \<open>The arguments of a call are kept by every step\<close>

lemma same_args_refl [simp]: "same_args st st"
  by (simp add: same_args_def)


lemma same_args_upd_q [simp]: "same_args st (upd_q f st)"
  by (simp add: same_args_def)










end
